theory Spec2Isabelle
  imports Main "HOL-Library.Word"
begin

section \<open>Machine types shared by the containers and the reply encoder\<close>

text \<open>
  \<^verbatim>\<open>std::size_t\<close> on the supported targets (x86-64 and AArch64 Linux) is an unsigned
  64-bit integer: addition and subtraction wrap around.
\<close>

type_synonym size_t = "64 word"

text \<open>
  \<^verbatim>\<open>enum descriptor_t : int {}\<close> with \<^verbatim>\<open>bad_descriptor_k{-1}\<close> (shared.hpp).
  Descriptors are only stored and compared, never computed with.
\<close>

type_synonym descriptor_t = "32 word"

definition bad_descriptor_k :: descriptor_t where
  "bad_descriptor_k = - 1"

section \<open>Reply encoder (helpers/reply.hpp)\<close>

subsection \<open>Byte ranges\<close>

text \<open>
  A \<^verbatim>\<open>struct iovec\<close> is a pointer and a length. The pointer is modelled by the bytes
  that are found at the address it holds (the whole string literal or the whole
  \<^verbatim>\<open>string_view\<close> it was taken from), so the range denotes the first \<open>iov_len\<close>
  of them. A \<^verbatim>\<open>std::string_view\<close> is its bytes; \<open>sv_size\<close> is its \<^verbatim>\<open>size()\<close>.
\<close>

record iovec =
  iov_base :: string
  iov_len :: size_t

definition sv_size :: "string \<Rightarrow> size_t" where
  "sv_size s = word_of_nat (length s)"

definition iovec_bytes :: "iovec \<Rightarrow> string" where
  "iovec_bytes v = take (unat (iov_len v)) (iov_base v)"

definition bool_to_size :: "bool \<Rightarrow> size_t" where
  "bool_to_size b = (if b then 1 else 0)"

subsection \<open>The HTTP header template\<close>

definition http_header_k :: string where
  \<open>http_header_k =
     ''HTTP/1.1 200 OK'' @ [CHR 0x0D, CHR 0x0A] @
     ''Content-Length:          '' @ [CHR 0x0D, CHR 0x0A] @
     ''Content-Type: application/json'' @ [CHR 0x0D, CHR 0x0A, CHR 0x0D, CHR 0x0A]\<close>

definition http_header_size_k :: nat where
  "http_header_size_k = 78"

definition http_header_length_offset_k :: nat where
  "http_header_length_offset_k = 33"

definition http_header_length_capacity_k :: nat where
  "http_header_length_capacity_k = 9"

subsection \<open>\<^verbatim>\<open>std::to_chars\<close> for an unsigned value in base 10\<close>

text \<open>
  The standard library function, as the C++ standard specifies it: the value is
  converted to decimal digits with no redundant leading zero and written from
  \<open>first_p\<close>; when the digits do not fit into \<open>[first_p, last_p)\<close> the result carries
  \<^verbatim>\<open>errc::value_too_large\<close> and \<open>ptr = last_p\<close>. The standard leaves the range
  unspecified in that case; the model keeps the buffer, and no statement below
  speaks about the buffer after a failure.
\<close>

datatype errc = Errc_ok | Value_too_large

record to_chars_result =
  ptr :: nat
  ec :: errc

definition digit_char :: "nat \<Rightarrow> char" where
  "digit_char d = char_of (48 + d)"

fun decimal_digits :: "nat \<Rightarrow> string" where
  "decimal_digits n =
     (if n < 10 then [digit_char n] else decimal_digits (n div 10) @ [digit_char (n mod 10)])"

declare decimal_digits.simps [simp del]

definition to_chars :: "string \<Rightarrow> nat \<Rightarrow> nat \<Rightarrow> size_t \<Rightarrow> to_chars_result \<times> string" where
  "to_chars buf first_p last_p val =
     (let ds = decimal_digits (unat val) in
      if length ds \<le> last_p - first_p
      then (\<lparr>ptr = first_p + length ds, ec = Errc_ok\<rparr>,
            take first_p buf @ ds @ drop (first_p + length ds) buf)
      else (\<lparr>ptr = last_p, ec = Value_too_large\<rparr>, buf))"

text \<open>
  \<^verbatim>\<open>bool set_http_content_length(char* headers, size_t content_len)\<close>: the buffer is
  passed in and returned.
\<close>

definition set_http_content_length :: "string \<Rightarrow> size_t \<Rightarrow> bool \<times> string" where
  "set_http_content_length headers content_len =
     (let (res, headers') =
            to_chars headers http_header_length_offset_k
              (http_header_length_offset_k + http_header_length_capacity_k) content_len
      in if ec res \<noteq> Errc_ok then (False, headers') else (True, headers'))"

text \<open>Reading a decimal field back, for the round trip of the digits.\<close>

definition digit_value :: "char \<Rightarrow> nat" where
  "digit_value c = of_char c - 48"

definition is_digit :: "char \<Rightarrow> bool" where
  "is_digit c = (48 \<le> (of_char c :: nat) \<and> (of_char c :: nat) \<le> 57)"

definition decode_decimal :: "string \<Rightarrow> nat" where
  "decode_decimal s = foldl (\<lambda>acc c. 10 * acc + digit_value c) 0 s"

subsection \<open>Envelopes\<close>

text \<open>
  \<^verbatim>\<open>fill_with_content\<close> and \<^verbatim>\<open>fill_with_error\<close> write into the caller's array
  \<open>buffers\<close> (five and seven entries) and return the sum of the lengths. The array
  is passed in and returned; the lengths 22, 10, 17, 12, 1 and 3 are the literals
  of the source.
\<close>

definition fill_with_content :: "iovec list \<Rightarrow> string \<Rightarrow> string \<Rightarrow> bool \<Rightarrow> iovec list \<times> size_t" where
  \<open>fill_with_content buffers request_id body append_comma =
     (let response_protocol_prefix_k = ''{"jsonrpc":"2.0","id":'';
          buffers = buffers[0 := \<lparr>iov_base = response_protocol_prefix_k, iov_len = 22\<rparr>];
          buffers = buffers[1 := \<lparr>iov_base = request_id, iov_len = sv_size request_id\<rparr>];
          result_separator = '',"result":'';
          buffers = buffers[2 := \<lparr>iov_base = result_separator, iov_len = 10\<rparr>];
          buffers = buffers[3 := \<lparr>iov_base = body, iov_len = sv_size body\<rparr>];
          protocol_suffix = ''},'';
          buffers = buffers[4 := \<lparr>iov_base = protocol_suffix, iov_len = 1 + bool_to_size append_comma\<rparr>]
      in (buffers,
          iov_len (buffers ! 0) + iov_len (buffers ! 1) + iov_len (buffers ! 2) +
          iov_len (buffers ! 3) + iov_len (buffers ! 4)))\<close>

definition fill_with_error ::
  "iovec list \<Rightarrow> string \<Rightarrow> string \<Rightarrow> string \<Rightarrow> bool \<Rightarrow> iovec list \<times> size_t" where
  \<open>fill_with_error buffers request_id error_code error_message append_comma =
     (let response_protocol_prefix_k = ''{"jsonrpc":"2.0","id":'';
          buffers = buffers[0 := \<lparr>iov_base = response_protocol_prefix_k, iov_len = 22\<rparr>];
          buffers = buffers[1 := \<lparr>iov_base = request_id, iov_len = sv_size request_id\<rparr>];
          error_code_separator = '',"error":{"code":'';
          buffers = buffers[2 := \<lparr>iov_base = error_code_separator, iov_len = 17\<rparr>];
          buffers = buffers[3 := \<lparr>iov_base = error_code, iov_len = sv_size error_code\<rparr>];
          error_message_separator = '',"message":"'';
          buffers = buffers[4 := \<lparr>iov_base = error_message_separator, iov_len = 12\<rparr>];
          buffers = buffers[5 := \<lparr>iov_base = error_message, iov_len = sv_size error_message\<rparr>];
          protocol_suffix = ''"}},'';
          buffers = buffers[6 := \<lparr>iov_base = protocol_suffix, iov_len = 3 + bool_to_size append_comma\<rparr>]
      in (buffers,
          22 + sv_size request_id + 17 + sv_size error_code + 12 + sv_size error_message + 3 +
          bool_to_size append_comma))\<close>

text \<open>
  \<^verbatim>\<open>iovecs_length<N>\<close> and \<^verbatim>\<open>iovecs_memcpy<N>\<close>: the counted loops
  \<^verbatim>\<open>for (i = 0; i != N; ++i)\<close>. The output of the copy is the bytes written from
  the start of \<open>output\<close>.
\<close>

definition iovecs_length :: "nat \<Rightarrow> iovec list \<Rightarrow> size_t" where
  "iovecs_length iovecs_len_ak iovecs =
     fold (\<lambda>i added_length. added_length + iov_len (iovecs ! i)) [0..<iovecs_len_ak] 0"

definition iovecs_memcpy :: "nat \<Rightarrow> iovec list \<Rightarrow> string" where
  "iovecs_memcpy iovecs_len_ak iovecs =
     fold (\<lambda>i output. output @ iovec_bytes (iovecs ! i)) [0..<iovecs_len_ak] []"


section \<open>Arena containers (datastructures.hpp)\<close>

text \<open>
  The classes are records; a member \<^verbatim>\<open>name_\<close> of the source is the field \<open>name\<close>,
  with the prefix \<open>buf_\<close>, \<open>arr_\<close> or \<open>pool_\<close> where two classes share the name.
\<close>

subsection \<open>The allocator and element construction\<close>

text \<open>
  \<^verbatim>\<open>std::malloc\<close> and \<^verbatim>\<open>std::realloc\<close> either fail, returning the null pointer, or
  return a block whose fresh cells hold indeterminate values. The outcome of a call is
  a parameter of the model: \<open>Null\<close> for a failure, \<open>Block f\<close> for a block whose fresh
  cell \<open>i\<close> holds \<open>f i\<close>. A pointer to a block is \<open>None\<close> (null) or \<open>Some\<close> of the
  cells of the block; \<open>realloc\<close> carries the cells of the old block over, as many as
  the new block holds. \<open>malloc\<close> and \<open>realloc\<close> take the number of cells of the block;
  \<open>malloc_bytes\<close> and \<open>realloc_bytes\<close> below take the byte count that the source
  computes, for \<^verbatim>\<open>array_gt::reserve\<close>, where the statements range over every size.
  \<^verbatim>\<open>buffer_gt::resize\<close> and \<^verbatim>\<open>round_robin_gt::alloc\<close> ask for cells, for sizes
  whose byte count does not wrap.
\<close>

datatype 'a heap_reply = Null | Block "nat \<Rightarrow> 'a"

definition malloc :: "'a heap_reply \<Rightarrow> size_t \<Rightarrow> 'a list option" where
  "malloc reply n = (case reply of Null \<Rightarrow> None | Block f \<Rightarrow> Some (map f [0..<unat n]))"

definition realloc :: "'a heap_reply \<Rightarrow> 'a list \<Rightarrow> size_t \<Rightarrow> 'a list option" where
  "realloc reply old n =
     (case reply of
        Null \<Rightarrow> None
      | Block f \<Rightarrow> Some (map (\<lambda>i. if i < length old then old ! i else f i) [0..<unat n]))"

text \<open>
  \<^verbatim>\<open>std::uninitialized_default_construct(first, last)\<close> default-initialises the cells
  of the range. What that leaves in a cell is the parameter \<open>dflt\<close>, applied to what
  the cell held: a constant function for an element type with a constructor, the
  identity for a trivial type such as \<^verbatim>\<open>char\<close>, whose cells are left as they are.
\<close>

definition uninitialized_default_construct ::
  "('a \<Rightarrow> 'a) \<Rightarrow> 'a list \<Rightarrow> nat \<Rightarrow> nat \<Rightarrow> 'a list" where
  "uninitialized_default_construct dflt mem first_p last_p =
     map (\<lambda>i. if first_p \<le> i \<and> i < last_p then dflt (mem ! i) else mem ! i) [0..<length mem]"

text \<open>\<^verbatim>\<open>std::iota(first, last, 0ul)\<close> over \<open>n\<close> cells.\<close>

definition iota :: "size_t \<Rightarrow> size_t list" where
  "iota n = map word_of_nat [0..<unat n]"

text \<open>
  The element type \<^verbatim>\<open>element_at\<close> of \<^verbatim>\<open>array_gt\<close> and \<^verbatim>\<open>pool_gt\<close>: its size in
  bytes, whether its default-initialisation is trivial (nothing is written, as for
  \<^verbatim>\<open>char\<close> or \<^verbatim>\<open>uint64_t\<close>), and what its default constructor leaves in a cell
  otherwise.
\<close>

record 'a element_type =
  sizeof :: size_t
  trivially_constructible :: bool
  default_init :: "'a \<Rightarrow> 'a"

text \<open>
  The byte count of a request, \<^verbatim>\<open>sizeof(element_at) * n\<close>, is a \<^verbatim>\<open>size_t\<close> product
  and wraps around. A block of \<open>bytes\<close> bytes holds \<open>bytes div sz\<close> whole cells of
  \<open>sz\<close> bytes. \<open>no_wrap sz n\<close> says that the product of \<open>sz\<close> and \<open>n\<close> is in
  the range of \<^verbatim>\<open>size_t\<close>.
\<close>

definition cells_of :: "size_t \<Rightarrow> size_t \<Rightarrow> size_t" where
  "cells_of sz bytes = bytes div sz"

definition malloc_bytes :: "'a heap_reply \<Rightarrow> size_t \<Rightarrow> size_t \<Rightarrow> 'a list option" where
  "malloc_bytes reply sz bytes = malloc reply (cells_of sz bytes)"

definition realloc_bytes :: "'a heap_reply \<Rightarrow> 'a list \<Rightarrow> size_t \<Rightarrow> size_t \<Rightarrow> 'a list option" where
  "realloc_bytes reply old sz bytes = realloc reply old (cells_of sz bytes)"

definition no_wrap :: "size_t \<Rightarrow> size_t \<Rightarrow> bool" where
  "no_wrap sz n = (unat sz * unat n < 2 ^ 64)"

text \<open>
  \<^verbatim>\<open>std::uninitialized_default_construct\<close> over the cells \<open>[first_p, last_p)\<close> of a
  block that may be shorter than the range: for a trivial type no cell is touched; a
  constructor that writes a cell outside the block has no defined result (\<open>None\<close>).
  \<open>default_cell\<close> is what default-initialisation leaves in one cell.
\<close>

definition construct_range :: "'a element_type \<Rightarrow> 'a list \<Rightarrow> nat \<Rightarrow> nat \<Rightarrow> 'a list option" where
  "construct_range T mem first_p last_p =
     (if trivially_constructible T then Some mem
      else if last_p \<le> length mem
      then Some (uninitialized_default_construct (default_init T) mem first_p last_p)
      else None)"

definition default_cell :: "'a element_type \<Rightarrow> 'a \<Rightarrow> 'a" where
  "default_cell T x = (if trivially_constructible T then x else default_init T x)"

subsection \<open>\<^verbatim>\<open>buffer_gt\<close>\<close>

record 'a buffer_gt =
  buf_elements :: "'a list option"
  buf_capacity :: size_t

definition buffer_init :: "'a buffer_gt" where
  "buffer_init = \<lparr>buf_elements = None, buf_capacity = 0\<rparr>"

text \<open>
  \<^verbatim>\<open>resize\<close> stores the result of \<^verbatim>\<open>malloc\<close> in \<^verbatim>\<open>elements_\<close> before it tests it.
\<close>

definition buffer_resize ::
  "('a \<Rightarrow> 'a) \<Rightarrow> 'a heap_reply \<Rightarrow> 'a buffer_gt \<Rightarrow> size_t \<Rightarrow> bool \<times> 'a buffer_gt" where
  "buffer_resize dflt reply b n =
     (let b = b\<lparr>buf_elements := malloc reply n\<rparr> in
      case buf_elements b of
        None \<Rightarrow> (False, b)
      | Some mem \<Rightarrow>
          (let b = b\<lparr>buf_capacity := n\<rparr>;
               b = b\<lparr>buf_elements :=
                      Some (uninitialized_default_construct dflt mem 0 (unat (buf_capacity b)))\<rparr>
           in (True, b)))"

subsection \<open>\<^verbatim>\<open>array_gt\<close>\<close>

record 'a array_gt =
  arr_elements :: "'a list option"
  arr_count :: size_t
  arr_capacity :: size_t

definition array_init :: "'a array_gt" where
  "array_init = \<lparr>arr_elements = None, arr_count = 0, arr_capacity = 0\<rparr>"

definition array_reserve ::
  "'a element_type \<Rightarrow> 'a heap_reply \<Rightarrow> 'a array_gt \<Rightarrow> size_t \<Rightarrow> (bool \<times> 'a array_gt) option" where
  "array_reserve T reply a n =
     (if n \<le> arr_capacity a then Some (True, a)
      else
        (case (case arr_elements a of
                 None \<Rightarrow> malloc_bytes reply (sizeof T) (sizeof T * n)
               | Some old \<Rightarrow> realloc_bytes reply old (sizeof T) (sizeof T * n)) of
           None \<Rightarrow> Some (False, a)
         | Some ptr' \<Rightarrow>
             (let a = a\<lparr>arr_elements := Some ptr'\<rparr> in
              case construct_range T ptr' (unat (arr_capacity a)) (unat n) of
                None \<Rightarrow> None
              | Some mem \<Rightarrow>
                  (let a = a\<lparr>arr_elements := Some mem\<rparr>;
                       a = a\<lparr>arr_capacity := n\<rparr>
                   in Some (True, a)))))"

text \<open>
  \<^verbatim>\<open>push_back_reserved\<close> writes the cell at \<^verbatim>\<open>count_\<close> and increments the count. The
  source does not check that the cell exists; writing outside the block has no defined
  result, which is \<open>None\<close> here.
\<close>

definition push_back_reserved :: "'a array_gt \<Rightarrow> 'a \<Rightarrow> 'a array_gt option" where
  "push_back_reserved a element =
     (case arr_elements a of
        None \<Rightarrow> None
      | Some mem \<Rightarrow>
          if unat (arr_count a) < length mem
          then Some (a\<lparr>arr_elements := Some (mem[unat (arr_count a) := element]),
                       arr_count := arr_count a + 1\<rparr>)
          else None)"

text \<open>The appended elements: the cells \<^verbatim>\<open>[begin(), end())\<close>, that is the first \<^verbatim>\<open>count_\<close>.\<close>

definition array_contents :: "'a array_gt \<Rightarrow> 'a list" where
  "array_contents a =
     (case arr_elements a of None \<Rightarrow> [] | Some mem \<Rightarrow> take (unat (arr_count a)) mem)"

text \<open>
  The representation invariant of an array: the block has \<^verbatim>\<open>capacity_\<close> cells, there is
  no block exactly when the capacity is zero or nothing was reserved, and the count is
  within the capacity.
\<close>

definition array_ok :: "'a array_gt \<Rightarrow> bool" where
  "array_ok a =
     (arr_count a \<le> arr_capacity a \<and>
      (case arr_elements a of
         None \<Rightarrow> arr_capacity a = 0
       | Some mem \<Rightarrow> length mem = unat (arr_capacity a)))"

text \<open>
  A sequence of \<^verbatim>\<open>reserve\<close> calls, each with the allocator's reply to it; it has a
  result as long as every call has one.
\<close>

fun array_reserves ::
  "'a element_type \<Rightarrow> 'a array_gt \<Rightarrow> ('a heap_reply \<times> size_t) list \<Rightarrow>
     (bool list \<times> 'a array_gt) option" where
  "array_reserves T a [] = Some ([], a)"
| "array_reserves T a ((reply, n) # calls) =
     (case array_reserve T reply a n of
        None \<Rightarrow> None
      | Some (ok, a') \<Rightarrow>
          (case array_reserves T a' calls of
             None \<Rightarrow> None
           | Some (oks, a'') \<Rightarrow> Some (ok # oks, a'')))"

subsection \<open>\<^verbatim>\<open>pool_gt\<close>\<close>

text \<open>
  One block holds the elements and, behind them, the free offsets. A pointer to an
  element of the pool, \<^verbatim>\<open>elements_ + k\<close>, is \<open>At k\<close>.
\<close>

datatype elem_ptr = Nullptr | At size_t

record 'a pool_gt =
  pool_capacity :: size_t
  free_count :: size_t
  pool_elements :: "'a list option"
  free_offsets :: "size_t list option"

definition pool_init :: "'a pool_gt" where
  "pool_init = \<lparr>pool_capacity = 0, free_count = 0, pool_elements = None, free_offsets = None\<rparr>"

text \<open>
  \<^verbatim>\<open>reserve(n)\<close> asks for \<^verbatim>\<open>(sizeof(element_at) + sizeof(std::size_t)) * n\<close>
  bytes, a \<^verbatim>\<open>size_t\<close> product that wraps around; \<^verbatim>\<open>sizeof(std::size_t)\<close> is 8. The
  \<open>n\<close> elements lie at the start of the block and the \<open>n\<close> offsets behind them.
  The source then constructs the elements and fills the offsets unchecked: where the
  block is too short for them, these writes leave the block and there is no defined
  result (\<open>None\<close>).
\<close>

definition pool_reserve ::
  "'a element_type \<Rightarrow> 'a heap_reply \<Rightarrow> 'a pool_gt \<Rightarrow> size_t \<Rightarrow> (bool \<times> 'a pool_gt) option" where
  "pool_reserve T reply p n =
     (let bytes = (sizeof T + 8) * n in
      case reply of
        Null \<Rightarrow> Some (False, p)
      | Block f \<Rightarrow>
          if unat (sizeof T) * unat n + 8 * unat n \<le> unat bytes
          then (let p = p\<lparr>pool_elements := Some (map f [0..<unat n])\<rparr>;
                    p = p\<lparr>free_count := n, pool_capacity := n\<rparr>
                in case construct_range T (map f [0..<unat n]) 0 (unat (pool_capacity p)) of
                     None \<Rightarrow> None
                   | Some mem \<Rightarrow>
                       (let p = p\<lparr>pool_elements := Some mem\<rparr>;
                            p = p\<lparr>free_offsets := Some (iota n)\<rparr>
                        in Some (True, p)))
          else None)"

text \<open>
  \<^verbatim>\<open>alloc\<close> and \<^verbatim>\<open>release\<close> read and write \<^verbatim>\<open>free_offsets_\<close> unchecked; an access
  outside the block, and \<^verbatim>\<open>release\<close> of the null pointer, have no defined result
  (\<open>None\<close>).
\<close>

definition pool_alloc :: "'a pool_gt \<Rightarrow> (elem_ptr \<times> 'a pool_gt) option" where
  "pool_alloc p =
     (if free_count p \<noteq> 0
      then (let p = p\<lparr>free_count := free_count p - 1\<rparr> in
            case free_offsets p of
              None \<Rightarrow> None
            | Some offs \<Rightarrow>
                if unat (free_count p) < length offs
                then Some (At (offs ! unat (free_count p)), p)
                else None)
      else Some (Nullptr, p))"

definition pool_release :: "'a pool_gt \<Rightarrow> elem_ptr \<Rightarrow> 'a pool_gt option" where
  "pool_release p released =
     (case released of
        Nullptr \<Rightarrow> None
      | At k \<Rightarrow>
          (case free_offsets p of
             None \<Rightarrow> None
           | Some offs \<Rightarrow>
               if unat (free_count p) < length offs
               then Some (p\<lparr>free_offsets := Some (offs[unat (free_count p) := k]),
                            free_count := free_count p + 1\<rparr>)
               else None))"

text \<open>\<open>k\<close> consecutive \<^verbatim>\<open>alloc()\<close> calls, with the pointers they return in order.\<close>

fun pool_allocs :: "nat \<Rightarrow> 'a pool_gt \<Rightarrow> (elem_ptr list \<times> 'a pool_gt) option" where
  "pool_allocs 0 p = Some ([], p)"
| "pool_allocs (Suc k) p =
     (case pool_alloc p of
        None \<Rightarrow> None
      | Some (q, p') \<Rightarrow>
          (case pool_allocs k p' of
             None \<Rightarrow> None
           | Some (qs, p'') \<Rightarrow> Some (q # qs, p'')))"

section \<open>Connection ring (\<^verbatim>\<open>round_robin_gt\<close> of datastructures.hpp and shared.hpp)\<close>

text \<open>
  Modelled from the spec: the element type of the ring is declared outside the three
  source files; the ring uses its fields \<^verbatim>\<open>descriptor\<close>, \<^verbatim>\<open>skipped_cycles\<close>,
  \<^verbatim>\<open>response.copies_count\<close> and \<^verbatim>\<open>response.iovecs_count\<close>. The spec's connection-state
  record has a descriptor, a skipped-cycles counter and a response-progress record of
  counts; the counters are taken as \<^verbatim>\<open>size_t\<close>.
\<close>

record exchange_progress =
  copies_count :: size_t
  iovecs_count :: size_t

record connection =
  descriptor :: descriptor_t
  skipped_cycles :: size_t
  response :: exchange_progress

record round_robin_gt =
  circle :: "connection list option"
  count :: size_t
  capacity :: size_t
  idx_newest :: size_t
  idx_oldest :: size_t
  idx_to_poll :: size_t

definition round_robin_init :: round_robin_gt where
  "round_robin_init =
     \<lparr>circle = None, count = 0, capacity = 0, idx_newest = 0, idx_oldest = 0, idx_to_poll = 0\<rparr>"

definition alloc :: "connection heap_reply \<Rightarrow> round_robin_gt \<Rightarrow> size_t \<Rightarrow> bool \<times> round_robin_gt" where
  "alloc reply r n =
     (case malloc reply n of
        None \<Rightarrow> (False, r)
      | Some cons \<Rightarrow> (True, r\<lparr>circle := Some cons, capacity := n\<rparr>))"

text \<open>
  The three operations access \<^verbatim>\<open>circle_\<close> unchecked and divide by \<^verbatim>\<open>capacity_\<close> or
  \<^verbatim>\<open>count_\<close>. An access to a slot outside the block and a remainder by zero have no
  defined result (\<open>None\<close>). The reference that \<^verbatim>\<open>poll\<close> returns is the index of the slot
  it refers to.
\<close>

definition drop_tail :: "round_robin_gt \<Rightarrow> (descriptor_t \<times> round_robin_gt) option" where
  "drop_tail r =
     (case circle r of
        None \<Rightarrow> None
      | Some c \<Rightarrow>
          if unat (idx_oldest r) < length c \<and> capacity r \<noteq> 0
          then (let old = descriptor (c ! unat (idx_oldest r));
                    c = c[unat (idx_oldest r) :=
                            (c ! unat (idx_oldest r))\<lparr>descriptor := bad_descriptor_k\<rparr>];
                    r = r\<lparr>circle := Some c\<rparr>;
                    r = r\<lparr>idx_to_poll :=
                           (if idx_to_poll r = idx_oldest r
                            then (idx_to_poll r + 1) mod capacity r
                            else idx_to_poll r)\<rparr>;
                    r = r\<lparr>idx_oldest := (idx_oldest r + 1) mod capacity r\<rparr>;
                    r = r\<lparr>count := count r - 1\<rparr>
                in Some (old, r))
          else None)"

definition push_ahead :: "round_robin_gt \<Rightarrow> descriptor_t \<Rightarrow> round_robin_gt option" where
  "push_ahead r new =
     (case circle r of
        None \<Rightarrow> None
      | Some c \<Rightarrow>
          if unat (idx_newest r) < length c \<and> capacity r \<noteq> 0
          then (let slot = c ! unat (idx_newest r);
                    slot = slot\<lparr>descriptor := new\<rparr>;
                    slot = slot\<lparr>skipped_cycles := 0\<rparr>;
                    slot = slot\<lparr>response := (response slot)\<lparr>copies_count := 0\<rparr>\<rparr>;
                    slot = slot\<lparr>response := (response slot)\<lparr>iovecs_count := 0\<rparr>\<rparr>;
                    r = r\<lparr>circle := Some (c[unat (idx_newest r) := slot])\<rparr>;
                    r = r\<lparr>idx_newest := (idx_newest r + 1) mod capacity r\<rparr>;
                    r = r\<lparr>count := count r + 1\<rparr>
                in Some r)
          else None)"

definition poll :: "round_robin_gt \<Rightarrow> (size_t \<times> round_robin_gt) option" where
  "poll r =
     (case circle r of
        None \<Rightarrow> None
      | Some c \<Rightarrow>
          if count r \<noteq> 0
          then (let connection_ptr = idx_to_poll r;
                    idx_to_poll_following = (idx_to_poll r + 1) mod count r;
                    r = r\<lparr>idx_to_poll :=
                           (if idx_to_poll_following = idx_newest r
                            then idx_oldest r
                            else idx_to_poll_following)\<rparr>
                in if unat (idx_to_poll r) < length c
                   then Some (idx_to_poll r, r)
                   else None)
          else None)"

text \<open>The connection record in a slot; a slot outside the block holds none.\<close>

definition slot_at :: "round_robin_gt \<Rightarrow> size_t \<Rightarrow> connection option" where
  "slot_at r i =
     (case circle r of
        None \<Rightarrow> None
      | Some c \<Rightarrow> if unat i < length c then Some (c ! unat i) else None)"

text \<open>
  The live slots in insertion order: the \<^verbatim>\<open>count_\<close> slots from \<^verbatim>\<open>idx_oldest_\<close> on,
  around the circle of \<^verbatim>\<open>capacity_\<close> slots, which are the ones written by
  \<^verbatim>\<open>push_ahead\<close> and not yet dropped by \<^verbatim>\<open>drop_tail\<close>.
\<close>

definition live_slots :: "round_robin_gt \<Rightarrow> size_t list" where
  "live_slots r =
     map (\<lambda>j. word_of_nat ((unat (idx_oldest r) + j) mod unat (capacity r)))
       [0..<unat (count r)]"

text \<open>\<open>k\<close> consecutive \<^verbatim>\<open>poll()\<close> calls, with the slots they return in order.\<close>

fun polls :: "nat \<Rightarrow> round_robin_gt \<Rightarrow> (size_t list \<times> round_robin_gt) option" where
  "polls 0 r = Some ([], r)"
| "polls (Suc k) r =
     (case poll r of
        None \<Rightarrow> None
      | Some (i, r') \<Rightarrow>
          (case polls k r' of
             None \<Rightarrow> None
           | Some (is, r'') \<Rightarrow> Some (i # is, r'')))"

text \<open>
  The cycle of the claims: the live slots in insertion order, starting from the slot
  of the poll cursor and wrapping from the newest to the oldest.
\<close>

definition cycle_from_cursor :: "round_robin_gt \<Rightarrow> size_t list" where
  "cycle_from_cursor r =
     dropWhile (\<lambda>i. i \<noteq> idx_to_poll r) (live_slots r) @
     takeWhile (\<lambda>i. i \<noteq> idx_to_poll r) (live_slots r)"

section \<open>Auxiliary notions for the statements\<close>

subsection \<open>Arrays\<close>

text \<open>
  The cells of the block after a growing \<^verbatim>\<open>reserve(n)\<close> that the allocator answered
  with \<open>Block f\<close>, when the byte count does not wrap: the cells below the old capacity
  are the old ones, the cells from the old capacity on are default-initialised fresh
  cells.
\<close>

definition grown :: "'a element_type \<Rightarrow> (nat \<Rightarrow> 'a) \<Rightarrow> 'a array_gt \<Rightarrow> size_t \<Rightarrow> 'a list" where
  "grown T f a n =
     map (\<lambda>i. if i < unat (arr_capacity a)
               then (case arr_elements a of None \<Rightarrow> f i | Some old \<Rightarrow> old ! i)
               else default_cell T (f i))
       [0..<unat n]"

text \<open>
  Two element types of the examples: \<^verbatim>\<open>char\<close> (one byte) and \<^verbatim>\<open>uint64_t\<close> (eight
  bytes), both trivially default-constructible.
\<close>

definition char_type :: "8 word element_type" where
  "char_type = \<lparr>sizeof = 1, trivially_constructible = True, default_init = id\<rparr>"

definition uint64_type :: "64 word element_type" where
  "uint64_type = \<lparr>sizeof = 8, trivially_constructible = True, default_init = id\<rparr>"

subsection \<open>Pools\<close>

text \<open>
  The states of a pool \<open>p\<close> under the use the source asks for: \<open>pool_reach p out s\<close>
  says that \<open>s\<close> comes from \<open>p\<close> by \<^verbatim>\<open>alloc\<close> and \<^verbatim>\<open>release\<close> calls, where only
  elements that are allocated and not yet released are released; \<open>out\<close> is the set of
  the offsets of those elements.
\<close>

inductive pool_reach :: "'a pool_gt \<Rightarrow> size_t set \<Rightarrow> 'a pool_gt \<Rightarrow> bool" for p where
  fresh: "pool_reach p {} p"
| alloc_some:
    "pool_reach p out s \<Longrightarrow> pool_alloc s = Some (At k, s') \<Longrightarrow> pool_reach p (insert k out) s'"
| alloc_null:
    "pool_reach p out s \<Longrightarrow> pool_alloc s = Some (Nullptr, s') \<Longrightarrow> pool_reach p out s'"
| release:
    "pool_reach p out s \<Longrightarrow> k \<in> out \<Longrightarrow> pool_release s (At k) = Some s' \<Longrightarrow>
       pool_reach p (out - {k}) s'"

text \<open>
  The invariant of those states for a pool of capacity \<open>n\<close>: the free stack (the first
  \<^verbatim>\<open>free_count_\<close> offsets) has no duplicates and, with the allocated offsets, makes up
  the offsets \<open>0, \<dots>, n - 1\<close>.
\<close>

definition pool_inv :: "size_t \<Rightarrow> size_t set \<Rightarrow> 'a pool_gt \<Rightarrow> bool" where
  "pool_inv n out s =
     (case free_offsets s of
        None \<Rightarrow> False
      | Some offs \<Rightarrow>
          length offs = unat n \<and> unat (free_count s) \<le> unat n \<and>
          distinct (take (unat (free_count s)) offs) \<and>
          set (take (unat (free_count s)) offs) \<inter> out = {} \<and>
          set (take (unat (free_count s)) offs) \<union> out = set (iota n))"

subsection \<open>Rings\<close>

text \<open>
  A run of ring operations under their stated preconditions: \<^verbatim>\<open>size() < capacity()\<close>
  before \<^verbatim>\<open>push_ahead\<close>, \<^verbatim>\<open>size() > 0\<close> before \<^verbatim>\<open>drop_tail\<close> and \<^verbatim>\<open>poll\<close>. A
  run that breaks a precondition, or whose operation has no defined result, is \<open>None\<close>.
\<close>

datatype ring_op = Push descriptor_t | Drop | Poll

fun run_ops :: "round_robin_gt \<Rightarrow> ring_op list \<Rightarrow> round_robin_gt option" where
  "run_ops r [] = Some r"
| "run_ops r (Push d # ops) =
     (if count r < capacity r
      then (case push_ahead r d of None \<Rightarrow> None | Some r' \<Rightarrow> run_ops r' ops)
      else None)"
| "run_ops r (Drop # ops) =
     (if count r \<noteq> 0
      then (case drop_tail r of None \<Rightarrow> None | Some (d, r') \<Rightarrow> run_ops r' ops)
      else None)"
| "run_ops r (Poll # ops) =
     (if count r \<noteq> 0
      then (case poll r of None \<Rightarrow> None | Some (i, r') \<Rightarrow> run_ops r' ops)
      else None)"

text \<open>
  The bounds of a ring: the block has \<^verbatim>\<open>capacity_\<close> slots, the count is within the
  capacity, the three indices are below the capacity, and the newest index is
  \<^verbatim>\<open>count_\<close> slots after the oldest one around the circle.
\<close>

definition ring_bounds :: "round_robin_gt \<Rightarrow> bool" where
  "ring_bounds r =
     (case circle r of
        None \<Rightarrow> False
      | Some c \<Rightarrow>
          length c = unat (capacity r) \<and> count r \<le> capacity r \<and>
          idx_oldest r < capacity r \<and> idx_newest r < capacity r \<and>
          idx_to_poll r < capacity r \<and>
          unat (idx_newest r) = (unat (idx_oldest r) + unat (count r)) mod unat (capacity r))"

text \<open>
  A ring of four slots, as \<^verbatim>\<open>alloc(4)\<close> leaves it on a block of zeroed cells, and the
  states it is in after the runs of the examples: three connections 10, 11, 12 pushed;
  then the oldest dropped; and two connections 10, 11 pushed, then the oldest dropped.
\<close>

definition fresh_connection :: connection where
  "fresh_connection =
     \<lparr>descriptor = 0, skipped_cycles = 0, response = \<lparr>copies_count = 0, iovecs_count = 0\<rparr>\<rparr>"

definition conn :: "descriptor_t \<Rightarrow> connection" where
  "conn d = fresh_connection\<lparr>descriptor := d\<rparr>"

definition ring4 :: round_robin_gt where
  "ring4 = snd (alloc (Block (\<lambda>i. fresh_connection)) round_robin_init 4)"

definition ring_10_11_12 :: round_robin_gt where
  "ring_10_11_12 =
     \<lparr>circle = Some [conn 10, conn 11, conn 12, fresh_connection],
      count = 3, capacity = 4, idx_newest = 3, idx_oldest = 0, idx_to_poll = 0\<rparr>"

definition ring_11_12 :: round_robin_gt where
  "ring_11_12 =
     \<lparr>circle = Some [conn bad_descriptor_k, conn 11, conn 12, fresh_connection],
      count = 2, capacity = 4, idx_newest = 3, idx_oldest = 1, idx_to_poll = 1\<rparr>"

definition ring_11 :: round_robin_gt where
  "ring_11 =
     \<lparr>circle = Some [conn bad_descriptor_k, conn 11, fresh_connection, fresh_connection],
      count = 1, capacity = 4, idx_newest = 2, idx_oldest = 1, idx_to_poll = 1\<rparr>"

section \<open>Properties of the reply encoder\<close>

subsection \<open>Auxiliary facts\<close>

lemma upt5: "[0..<5] = [0,1,2,3,4]" by (simp add: upt_rec)
lemma upt7: "[0..<7] = [0,1,2,3,4,5,6]" by (simp add: upt_rec)

lemma replicate5: "replicate 5 x = [x, x, x, x, x]"
  by (simp add: eval_nat_numeral)

lemma replicate7: "replicate 7 x = [x, x, x, x, x, x, x]"
  by (simp add: eval_nat_numeral)

lemma five_cells:
  assumes "5 \<le> length (xs :: 'a list)"
  obtains x0 x1 x2 x3 x4 rest where "xs = x0 # x1 # x2 # x3 # x4 # rest"
  using assms by (auto simp: Suc_le_length_iff eval_nat_numeral)

lemma seven_cells:
  assumes "7 \<le> length (xs :: 'a list)"
  obtains x0 x1 x2 x3 x4 x5 x6 rest where "xs = x0 # x1 # x2 # x3 # x4 # x5 # x6 # rest"
  using assms by (auto simp: Suc_le_length_iff eval_nat_numeral)

lemma fill_with_content_cells:
  \<open>fill_with_content (x0 # x1 # x2 # x3 # x4 # rest) request_id body append_comma =
     (\<lparr>iov_base = ''{"jsonrpc":"2.0","id":'', iov_len = 22\<rparr> #
      \<lparr>iov_base = request_id, iov_len = sv_size request_id\<rparr> #
      \<lparr>iov_base = '',"result":'', iov_len = 10\<rparr> #
      \<lparr>iov_base = body, iov_len = sv_size body\<rparr> #
      \<lparr>iov_base = ''},'', iov_len = 1 + bool_to_size append_comma\<rparr> # rest,
      22 + sv_size request_id + 10 + sv_size body + (1 + bool_to_size append_comma))\<close>
  by (simp add: fill_with_content_def Let_def)

lemma fill_with_error_cells:
  \<open>fill_with_error (x0 # x1 # x2 # x3 # x4 # x5 # x6 # rest) request_id error_code error_message append_comma =
     (\<lparr>iov_base = ''{"jsonrpc":"2.0","id":'', iov_len = 22\<rparr> #
      \<lparr>iov_base = request_id, iov_len = sv_size request_id\<rparr> #
      \<lparr>iov_base = '',"error":{"code":'', iov_len = 17\<rparr> #
      \<lparr>iov_base = error_code, iov_len = sv_size error_code\<rparr> #
      \<lparr>iov_base = '',"message":"'', iov_len = 12\<rparr> #
      \<lparr>iov_base = error_message, iov_len = sv_size error_message\<rparr> #
      \<lparr>iov_base = ''"}},'', iov_len = 3 + bool_to_size append_comma\<rparr> # rest,
      22 + sv_size request_id + 17 + sv_size error_code + 12 + sv_size error_message + 3 +
          bool_to_size append_comma)\<close>
  by (simp add: fill_with_error_def Let_def)

lemma decimal_digits_nonempty: "decimal_digits n \<noteq> []"
  by (subst decimal_digits.simps) simp

lemma length_decimal_digits_le:
  "0 < k \<Longrightarrow> length (decimal_digits n) \<le> k \<longleftrightarrow> n < 10 ^ k"
proof (induction n arbitrary: k rule: decimal_digits.induct)
  case (1 n)
  show ?case
  proof (cases "n < 10")
    case True
    have "(10::nat) ^ 1 \<le> 10 ^ k" using 1(2) by (intro power_increasing) simp_all
    with True have "n < 10 ^ k" by simp
    moreover from True have "length (decimal_digits n) = 1"
      by (subst decimal_digits.simps) simp
    ultimately show ?thesis using 1(2) by simp
  next
    case False
    then have len: "length (decimal_digits n) = Suc (length (decimal_digits (n div 10)))"
      by (subst decimal_digits.simps) simp
    show ?thesis
    proof (cases k)
      case 0
      with 1(2) show ?thesis by simp
    next
      case (Suc j)
      show ?thesis
      proof (cases "j = 0")
        case True
        with Suc False len decimal_digits_nonempty [of "n div 10"] show ?thesis
          by (cases "decimal_digits (n div 10)") simp_all
      next
        case j: False
        then have "length (decimal_digits (n div 10)) \<le> j \<longleftrightarrow> n div 10 < 10 ^ j"
          using 1(1) [OF False, of j] by simp
        moreover have "n div 10 < 10 ^ j \<longleftrightarrow> n < 10 ^ Suc j"
          by (simp add: div_less_iff_less_mult mult.commute)
        ultimately show ?thesis using Suc len by simp
      qed
    qed
  qed
qed

lemma is_digit_digit_char: "d < 10 \<Longrightarrow> is_digit (digit_char d)"
  by (simp add: is_digit_def digit_char_def)

lemma digit_value_digit_char: "d < 10 \<Longrightarrow> digit_value (digit_char d) = d"
  by (simp add: digit_value_def digit_char_def)

lemma decimal_digits_are_digits: "c \<in> set (decimal_digits n) \<Longrightarrow> is_digit c"
proof (induction n rule: decimal_digits.induct)
  case (1 n)
  then show ?case
    by (subst (asm) (2) decimal_digits.simps) (auto simp: is_digit_digit_char split: if_splits)
qed

lemma decode_decimal_snoc: "decode_decimal (s @ [c]) = 10 * decode_decimal s + digit_value c"
  by (simp add: decode_decimal_def)

lemma decode_decimal_digits: "decode_decimal (decimal_digits n) = n"
proof (induction n rule: decimal_digits.induct)
  case (1 n)
  show ?case
  proof (cases "n < 10")
    case True
    then show ?thesis
      by (subst decimal_digits.simps) (simp add: decode_decimal_def digit_value_digit_char)
  next
    case False
    with 1 show ?thesis
      by (subst decimal_digits.simps) (simp add: decode_decimal_snoc digit_value_digit_char)
  qed
qed

lemma hd_decimal_digits: "hd (decimal_digits n) = CHR ''0'' \<Longrightarrow> n = 0"
proof (induction n rule: decimal_digits.induct)
  case (1 n)
  show ?case
  proof (cases "n < 10")
    case True
    with 1(2) have "digit_char n = CHR ''0''"
      by (subst (asm) decimal_digits.simps) simp
    then have "digit_value (digit_char n) = digit_value (CHR ''0'')" by simp
    with True show ?thesis by (simp add: digit_value_digit_char) (simp add: digit_value_def)
  next
    case False
    with 1(2) have "hd (decimal_digits (n div 10)) = CHR ''0''"
      by (subst (asm) decimal_digits.simps) (simp add: decimal_digits_nonempty)
    with 1(1) False have "n div 10 = 0" by simp
    with False show ?thesis by simp
  qed
qed

lemma set_http_content_length_fits:
  assumes "unat n < 10 ^ 9"
  shows "set_http_content_length headers n =
           (True, take 33 headers @ decimal_digits (unat n) @
                  drop (33 + length (decimal_digits (unat n))) headers)"
  using assms length_decimal_digits_le [of 9 "unat n"]
  by (simp add: set_http_content_length_def to_chars_def Let_def
      http_header_length_offset_k_def http_header_length_capacity_k_def)

lemma set_http_content_length_overflow:
  assumes "10 ^ 9 \<le> unat n"
  shows "fst (set_http_content_length headers n) = False"
  using assms length_decimal_digits_le [of 9 "unat n"]
  by (simp add: set_http_content_length_def to_chars_def Let_def
      http_header_length_offset_k_def http_header_length_capacity_k_def)

lemma digit_char_numerals:
  "digit_char 0 = CHR ''0''" "digit_char 1 = CHR ''1''" "digit_char 2 = CHR ''2''"
  "digit_char 3 = CHR ''3''" "digit_char 4 = CHR ''4''" "digit_char 5 = CHR ''5''"
  "digit_char 6 = CHR ''6''" "digit_char 7 = CHR ''7''" "digit_char 8 = CHR ''8''"
  "digit_char 9 = CHR ''9''" "digit_char (Suc 0) = CHR ''1''"
  unfolding digit_char_def by code_simp+

lemma dd123: "decimal_digits 123 = ''123''"
  by (simp add: decimal_digits.simps digit_char_numerals)


subsection \<open>Success envelope\<close>

text \<open>
  Claim C4, as the source has it: for request id \<open>7\<close>, result body \<open>19\<close> and no
  trailing comma, \<open>fill_with_content\<close> fills five ranges whose concatenation is
  \<^verbatim>\<open>{"jsonrpc":"2.0","id":7,"result":19}\<close>, and the length it returns is 36, the
  number of bytes of that text (22 + 1 + 10 + 2 + 1).
\<close>

theorem fill_with_content_id7_result19:
  assumes "5 \<le> length buffers"
  shows \<open>iovecs_memcpy 5 (fst (fill_with_content buffers ''7'' ''19'' False)) =
           ''{"jsonrpc":"2.0","id":7,"result":19}'' \<and>
         snd (fill_with_content buffers ''7'' ''19'' False) = 36 \<and>
         length ''{"jsonrpc":"2.0","id":7,"result":19}'' = 36\<close>
proof -
  from assms obtain x0 x1 x2 x3 x4 rest where "buffers = x0 # x1 # x2 # x3 # x4 # rest"
    by (rule five_cells)
  then show ?thesis
    by (simp add: fill_with_content_cells iovecs_memcpy_def iovec_bytes_def sv_size_def
        bool_to_size_def upt5)
qed

theorem fill_with_content_id7_result19_witness:
  \<open>5 \<le> length (replicate 5 \<lparr>iov_base = [], iov_len = 0\<rparr>) \<and>
   iovecs_memcpy 5 (fst (fill_with_content (replicate 5 \<lparr>iov_base = [], iov_len = 0\<rparr>)
     ''7'' ''19'' False)) = ''{"jsonrpc":"2.0","id":7,"result":19}'' \<and>
   snd (fill_with_content (replicate 5 \<lparr>iov_base = [], iov_len = 0\<rparr>) ''7'' ''19'' False) = 36\<close>
proof -
  have h: "5 \<le> length (replicate 5 \<lparr>iov_base = [], iov_len = 0\<rparr>)" by simp
  show ?thesis using h fill_with_content_id7_result19 [OF h] by simp
qed

text \<open>
  Claim C4 as stated fails: the returned length is not 38. With the one-byte id \<open>7\<close>
  the concatenation is the stated text and the length is 36; with the three-byte id
  \<^verbatim>\<open>"7"\<close> (quotes included) the length is 38, and the concatenation is another text.
\<close>

theorem fill_with_content_reported_38_counterexample:
  \<open>\<not> (iovecs_memcpy 5 (fst (fill_with_content (replicate 5 \<lparr>iov_base = [], iov_len = 0\<rparr>)
          ''7'' ''19'' False)) = ''{"jsonrpc":"2.0","id":7,"result":19}'' \<and>
       snd (fill_with_content (replicate 5 \<lparr>iov_base = [], iov_len = 0\<rparr>)
          ''7'' ''19'' False) = 38) \<and>
   \<not> (iovecs_memcpy 5 (fst (fill_with_content (replicate 5 \<lparr>iov_base = [], iov_len = 0\<rparr>)
          ''"7"'' ''19'' False)) = ''{"jsonrpc":"2.0","id":7,"result":19}'' \<and>
       snd (fill_with_content (replicate 5 \<lparr>iov_base = [], iov_len = 0\<rparr>)
          ''"7"'' ''19'' False) = 38)\<close>
  by (simp add: replicate5 fill_with_content_cells iovecs_memcpy_def iovec_bytes_def sv_size_def
      bool_to_size_def upt5)

subsection \<open>Error envelope\<close>

text \<open>
  Claim C6: for id \<open>1\<close>, error code \<open>-32601\<close>, message \<open>Method not found\<close> and no
  trailing comma, \<open>fill_with_error\<close> fills seven ranges whose concatenation is
  \<^verbatim>\<open>{"jsonrpc":"2.0","id":1,"error":{"code":-32601,"message":"Method not found"}}\<close>,
  and it returns the byte length of that concatenation (77).
\<close>

theorem fill_with_error_method_not_found:
  assumes "7 \<le> length buffers"
  shows \<open>iovecs_memcpy 7 (fst (fill_with_error buffers ''1'' ''-32601'' ''Method not found'' False)) =
           ''{"jsonrpc":"2.0","id":1,"error":{"code":-32601,"message":"Method not found"}}'' \<and>
         snd (fill_with_error buffers ''1'' ''-32601'' ''Method not found'' False) =
           sv_size (iovecs_memcpy 7
             (fst (fill_with_error buffers ''1'' ''-32601'' ''Method not found'' False))) \<and>
         snd (fill_with_error buffers ''1'' ''-32601'' ''Method not found'' False) = 77\<close>
proof -
  from assms obtain x0 x1 x2 x3 x4 x5 x6 rest
    where "buffers = x0 # x1 # x2 # x3 # x4 # x5 # x6 # rest"
    by (rule seven_cells)
  then show ?thesis
    by (simp add: fill_with_error_cells iovecs_memcpy_def iovec_bytes_def sv_size_def
        bool_to_size_def upt7)
qed

theorem fill_with_error_method_not_found_witness:
  \<open>7 \<le> length (replicate 7 \<lparr>iov_base = [], iov_len = 0\<rparr>) \<and>
   iovecs_memcpy 7 (fst (fill_with_error (replicate 7 \<lparr>iov_base = [], iov_len = 0\<rparr>)
     ''1'' ''-32601'' ''Method not found'' False)) =
     ''{"jsonrpc":"2.0","id":1,"error":{"code":-32601,"message":"Method not found"}}'' \<and>
   snd (fill_with_error (replicate 7 \<lparr>iov_base = [], iov_len = 0\<rparr>)
     ''1'' ''-32601'' ''Method not found'' False) = 77\<close>
proof -
  have h: "7 \<le> length (replicate 7 \<lparr>iov_base = [], iov_len = 0\<rparr>)" by simp
  show ?thesis using h fill_with_error_method_not_found [OF h] by blast
qed

subsection \<open>Returned lengths\<close>

text \<open>
  Claim C10: for every request id, body, error code, error message and comma flag, the
  length returned by \<open>fill_with_content\<close> is \<open>iovecs_length 5\<close> of the ranges it
  filled, and the length returned by \<open>fill_with_error\<close> (a sum written out in the
  source) is \<open>iovecs_length 7\<close> of the ranges it filled.
\<close>

theorem returned_length_is_iovecs_length:
  assumes "5 \<le> length b5" and "7 \<le> length b7"
  shows "snd (fill_with_content b5 request_id body append_comma) =
           iovecs_length 5 (fst (fill_with_content b5 request_id body append_comma)) \<and>
         snd (fill_with_error b7 request_id error_code error_message append_comma) =
           iovecs_length 7 (fst (fill_with_error b7 request_id error_code error_message append_comma))"
proof -
  from assms(1) obtain x0 x1 x2 x3 x4 rest where b5: "b5 = x0 # x1 # x2 # x3 # x4 # rest"
    by (rule five_cells)
  from assms(2) obtain y0 y1 y2 y3 y4 y5 y6 rest'
    where b7: "b7 = y0 # y1 # y2 # y3 # y4 # y5 # y6 # rest'"
    by (rule seven_cells)
  have content: "snd (fill_with_content b5 request_id body append_comma) =
           iovecs_length 5 (fst (fill_with_content b5 request_id body append_comma))"
    unfolding b5 by (simp add: fill_with_content_cells iovecs_length_def upt5)
  have err: "snd (fill_with_error b7 request_id error_code error_message append_comma) =
           iovecs_length 7 (fst (fill_with_error b7 request_id error_code error_message append_comma))"
    unfolding b7 by (simp add: fill_with_error_cells iovecs_length_def upt7)
  from content err show ?thesis by simp
qed

theorem returned_length_is_iovecs_length_witness:
  \<open>5 \<le> length (replicate 5 \<lparr>iov_base = [], iov_len = 0\<rparr>) \<and>
   7 \<le> length (replicate 7 \<lparr>iov_base = [], iov_len = 0\<rparr>) \<and>
   snd (fill_with_content (replicate 5 \<lparr>iov_base = [], iov_len = 0\<rparr>) ''7'' ''19'' True) =
     iovecs_length 5 (fst (fill_with_content (replicate 5 \<lparr>iov_base = [], iov_len = 0\<rparr>)
       ''7'' ''19'' True)) \<and>
   snd (fill_with_error (replicate 7 \<lparr>iov_base = [], iov_len = 0\<rparr>) ''7'' ''-32601'' ''x'' True) =
     iovecs_length 7 (fst (fill_with_error (replicate 7 \<lparr>iov_base = [], iov_len = 0\<rparr>)
       ''7'' ''-32601'' ''x'' True))\<close>
proof -
  have h5: "5 \<le> length (replicate 5 \<lparr>iov_base = [], iov_len = 0\<rparr>)" by simp
  have h7: "7 \<le> length (replicate 7 \<lparr>iov_base = [], iov_len = 0\<rparr>)" by simp
  show ?thesis
    using h5 h7 returned_length_is_iovecs_length [OF h5 h7, where request_id = "''7''"
        and body = "''19''" and append_comma = True and error_code = "''-32601''"
        and error_message = "''x''"]
    by blast
qed

subsection \<open>HTTP header patch\<close>

text \<open>
  Claim C5: for every content length \<open>n\<close>, \<open>set_http_content_length\<close> on a header
  buffer that holds the reserved field (offset 33, width 9; the 78-byte template is
  one) returns true whenever \<open>n\<close> has at most nine decimal digits (\<open>n < 10 ^ 9\<close>), and
  then the digits of \<open>n\<close> (decimal, no sign, no leading zero, reading back as \<open>n\<close>)
  stand left-aligned at offset 33, the length of the header is unchanged, and every
  byte before offset 33 or after the digits, the rest of the reserved field included,
  is what it was. For every other \<open>n\<close>, that is every \<open>n\<close> that needs ten or more
  digits, it returns false.
\<close>

theorem set_http_content_length_patch:
  assumes "http_header_length_offset_k + http_header_length_capacity_k \<le> length headers"
  shows "if unat n < 10 ^ 9
         then let ds = decimal_digits (unat n); (ok, headers') = set_http_content_length headers n
              in ok \<and> length ds \<le> 9 \<and> (\<forall>c \<in> set ds. is_digit c) \<and>
                 decode_decimal ds = unat n \<and> (hd ds = CHR ''0'' \<longrightarrow> n = 0) \<and>
                 length headers' = length headers \<and>
                 take (length ds) (drop 33 headers') = ds \<and>
                 (\<forall>i < length headers. i < 33 \<or> 33 + length ds \<le> i \<longrightarrow> headers' ! i = headers ! i)
         else \<not> fst (set_http_content_length headers n) \<and>
              10 \<le> length (decimal_digits (unat n))"
proof (cases "unat n < 10 ^ 9")
  case False
  then show ?thesis
    using set_http_content_length_overflow [of n headers]
      length_decimal_digits_le [of 9 "unat n"]
    by simp
next
  case True
  define ds where "ds = decimal_digits (unat n)"
  have len: "length ds \<le> 9"
    using True length_decimal_digits_le [of 9 "unat n"] by (simp add: ds_def)
  have hl: "42 \<le> length headers"
    using assms by (simp add: http_header_length_offset_k_def http_header_length_capacity_k_def)
  define headers' where "headers' = take 33 headers @ ds @ drop (33 + length ds) headers"
  have res: "set_http_content_length headers n = (True, headers')"
    using set_http_content_length_fits [OF True] by (simp add: headers'_def ds_def)
  have l': "length headers' = length headers"
    using hl len by (simp add: headers'_def)
  have field: "take (length ds) (drop 33 headers') = ds"
    using hl by (simp add: headers'_def)
  have other: "headers' ! i = headers ! i" if "i < length headers" "i < 33 \<or> 33 + length ds \<le> i" for i
  proof (cases "i < 33")
    case True
    with hl show ?thesis by (simp add: headers'_def nth_append)
  next
    case False
    with that have "33 + length ds \<le> i" by simp
    then have a: "\<not> i - 33 < length ds" and b: "33 + length ds + (i - 33 - length ds) = i"
      by arith+
    from hl that(1) have "headers' ! i = headers ! (33 + length ds + (i - 33 - length ds))"
      using False a by (simp add: headers'_def nth_append)
    with b show ?thesis by simp
  qed
  have zero: "hd ds = CHR ''0'' \<longrightarrow> n = 0"
    using hd_decimal_digits [of "unat n"] by (auto simp: ds_def unat_eq_0)
  show ?thesis
    using True res len l' field other zero decimal_digits_are_digits decode_decimal_digits
    by (simp add: ds_def [symmetric] Let_def) (auto simp: ds_def)
qed

theorem set_http_content_length_patch_witness:
  "http_header_length_offset_k + http_header_length_capacity_k \<le> length http_header_k \<and>
   length http_header_k = http_header_size_k \<and>
   set_http_content_length http_header_k 123 =
     (True, ''HTTP/1.1 200 OK'' @ [CHR 0x0D, CHR 0x0A] @
            ''Content-Length: 123      '' @ [CHR 0x0D, CHR 0x0A] @
            ''Content-Type: application/json'' @ [CHR 0x0D, CHR 0x0A, CHR 0x0D, CHR 0x0A]) \<and>
   length (snd (set_http_content_length http_header_k 123)) = 78 \<and>
   decode_decimal (take 3 (drop 33 (snd (set_http_content_length http_header_k 123)))) = 123 \<and>
   \<not> fst (set_http_content_length http_header_k 1000000000)"
proof -
  have h: "http_header_length_offset_k + http_header_length_capacity_k \<le> length http_header_k"
    by (simp add: http_header_k_def http_header_length_offset_k_def
        http_header_length_capacity_k_def)
  have v: "set_http_content_length http_header_k 123 =
     (True, ''HTTP/1.1 200 OK'' @ [CHR 0x0D, CHR 0x0A] @
            ''Content-Length: 123      '' @ [CHR 0x0D, CHR 0x0A] @
            ''Content-Type: application/json'' @ [CHR 0x0D, CHR 0x0A, CHR 0x0D, CHR 0x0A])"
    by (simp add: set_http_content_length_def to_chars_def dd123 http_header_k_def
        http_header_length_offset_k_def http_header_length_capacity_k_def)
  show ?thesis
    using h set_http_content_length_patch [OF h, of 123]
      set_http_content_length_patch [OF h, of 1000000000] v
    by (simp add: dd123 http_header_size_k_def)
qed

section \<open>Properties of the arena containers\<close>

subsection \<open>Allocation failure\<close>

lemma upt4: "[0..<4] = [0, 1, 2, 3]"
  by (simp add: upt_rec)

lemma unat_succ_below:
  assumes "unat (c :: size_t) < unat (n :: size_t)"
  shows "unat (c + 1) = unat c + 1"
proof -
  have "unat n < 2 ^ LENGTH(64)" by (rule unsigned_less)
  with assms have "unat c + 1 < 2 ^ LENGTH(64)" by linarith
  then have "unat c + unat (1 :: size_t) < 2 ^ LENGTH(64)" by (simp only: unat_1)
  then have "unat (c + 1) = unat c + unat (1 :: size_t)" by (simp only: unat_add_lem)
  then show ?thesis by (simp only: unat_1)
qed

lemma array_reserve_alloc_fails:
  "arr_capacity a < n \<Longrightarrow> array_reserve T Null a n = Some (False, a)"
  by (simp add: array_reserve_def malloc_bytes_def realloc_bytes_def malloc_def realloc_def
      not_le [symmetric] split: option.splits)

lemma pool_reserve_alloc_fails: "pool_reserve T Null p n = Some (False, p)"
  by (simp add: pool_reserve_def)

lemma ring_alloc_fails: "alloc Null r n = (False, r)"
  by (simp add: alloc_def malloc_def)

lemma buffer_resize_alloc_fails:
  "buffer_resize dflt Null b n = (False, b\<lparr>buf_elements := None\<rparr>)"
  by (simp add: buffer_resize_def malloc_def)


text \<open>
  Claim C9 says that a failed allocation leaves the container as it was, for
  \<^verbatim>\<open>Buffer::resize\<close>, \<^verbatim>\<open>Array::reserve\<close>, \<^verbatim>\<open>Pool::reserve\<close> and \<^verbatim>\<open>Ring::alloc\<close>.
  The last three test a local pointer and keep their state (the three lemmas above).
  \<^verbatim>\<open>buffer_gt::resize\<close> assigns the result of \<^verbatim>\<open>malloc\<close> to \<^verbatim>\<open>elements_\<close> before the
  test: on a buffer of four cells, a failing \<^verbatim>\<open>resize(8)\<close> returns false and leaves
  the data pointer null while the capacity is still 4.
\<close>

theorem buffer_resize_failure_loses_block:
  "buffer_resize id (Block (\<lambda>i. 0)) buffer_init 4 =
     (True, \<lparr>buf_elements = Some [0, 0, 0, 0 :: 8 word], buf_capacity = 4\<rparr>) \<and>
   buffer_resize id Null \<lparr>buf_elements = Some [0, 0, 0, 0 :: 8 word], buf_capacity = 4\<rparr> 8 =
     (False, \<lparr>buf_elements = None, buf_capacity = 4\<rparr>) \<and>
   \<lparr>buf_elements = None, buf_capacity = 4\<rparr> \<noteq>
     \<lparr>buf_elements = Some [0, 0, 0, 0 :: 8 word], buf_capacity = 4\<rparr>"
  by (simp add: buffer_resize_def malloc_def buffer_init_def uninitialized_default_construct_def
      upt4)

subsection \<open>\<^verbatim>\<open>array_gt::reserve\<close>\<close>

lemma length_udc [simp]: "length (uninitialized_default_construct dflt mem i j) = length mem"
  by (simp add: uninitialized_default_construct_def)

lemma nth_udc:
  "i < length mem \<Longrightarrow> uninitialized_default_construct dflt mem lo hi ! i =
     (if lo \<le> i \<and> i < hi then dflt (mem ! i) else mem ! i)"
  by (simp add: uninitialized_default_construct_def)

lemma unat_no_wrap:
  assumes "no_wrap sz n"
  shows "unat (sz * n) = unat sz * unat n"
proof -
  from assms have "unat sz * unat n < 2 ^ LENGTH(64)" by (simp add: no_wrap_def)
  then show ?thesis by (simp only: unat_mult_lem)
qed

lemma cells_no_wrap:
  assumes "sz \<noteq> 0" and "no_wrap sz n"
  shows "unat (cells_of sz (sz * n)) = unat n"
proof -
  from assms(1) have "0 < unat sz" by (simp add: unat_gt_0)
  then show ?thesis
    by (simp add: cells_of_def unat_div unat_no_wrap [OF assms(2)])
qed

lemma array_reserve_noop: "n \<le> arr_capacity a \<Longrightarrow> array_reserve T reply a n = Some (True, a)"
  by (simp add: array_reserve_def)

lemma construct_range_fits:
  assumes "hi \<le> length mem"
  shows "construct_range T mem lo hi =
           Some (map (\<lambda>i. if lo \<le> i \<and> i < hi then default_cell T (mem ! i) else mem ! i)
                   [0..<length mem])"
proof (cases "trivially_constructible T")
  case True
  then have "map (\<lambda>i. if lo \<le> i \<and> i < hi then default_cell T (mem ! i) else mem ! i)
               [0..<length mem] = mem"
    by (intro nth_equalityI) (simp_all add: default_cell_def)
  with True show ?thesis by (simp add: construct_range_def)
next
  case False
  with assms show ?thesis
    by (simp add: construct_range_def default_cell_def uninitialized_default_construct_def)
qed

lemma array_reserve_grow:
  assumes ok: "array_ok a" and gt: "arr_capacity a < n"
    and sz: "sizeof T \<noteq> 0" and nw: "no_wrap (sizeof T) n"
  shows "array_reserve T (Block f) a n =
           Some (True, a\<lparr>arr_elements := Some (grown T f a n), arr_capacity := n\<rparr>)"
proof -
  from gt have nle: "\<not> n \<le> arr_capacity a" by simp
  from gt have lt: "unat (arr_capacity a) < unat n" by (simp add: word_less_nat_alt)
  note cells = cells_no_wrap [OF sz nw]
  show ?thesis
  proof (cases "arr_elements a")
    case None
    with ok have cap: "arr_capacity a = 0" by (simp add: array_ok_def)
    have "map (\<lambda>i. if unat (arr_capacity a) \<le> i \<and> i < unat n
                    then default_cell T (map f [0..<unat n] ! i) else map f [0..<unat n] ! i)
            [0..<length (map f [0..<unat n])] = grown T f a n"
      by (rule nth_equalityI) (auto simp: grown_def cap)
    with None nle show ?thesis
      by (simp add: array_reserve_def malloc_bytes_def malloc_def cells construct_range_fits)
  next
    case (Some old)
    with ok have len: "length old = unat (arr_capacity a)" by (simp add: array_ok_def)
    let ?ptr = "map (\<lambda>i. if i < length old then old ! i else f i) [0..<unat n]"
    have "map (\<lambda>i. if unat (arr_capacity a) \<le> i \<and> i < unat n
                    then default_cell T (?ptr ! i) else ?ptr ! i)
            [0..<length ?ptr] = grown T f a n"
      by (rule nth_equalityI) (auto simp: grown_def Some len)
    with Some nle show ?thesis
      by (simp add: array_reserve_def realloc_bytes_def realloc_def cells construct_range_fits)
  qed
qed

lemma array_reserve_cases:
  assumes "array_ok a" and "sizeof T \<noteq> 0" and "no_wrap (sizeof T) n"
  obtains (noop) "array_reserve T reply a n = Some (True, a)"
  | (fail) "array_reserve T reply a n = Some (False, a)"
  | (grow) f where "arr_capacity a < n" "reply = Block f"
      "array_reserve T reply a n =
         Some (True, a\<lparr>arr_elements := Some (grown T f a n), arr_capacity := n\<rparr>)"
proof (cases "n \<le> arr_capacity a")
  case True
  then show ?thesis using noop by (simp add: array_reserve_noop)
next
  case False
  then have gt: "arr_capacity a < n" by simp
  show ?thesis
  proof (cases reply)
    case Null
    with gt show ?thesis using fail by (simp add: array_reserve_alloc_fails)
  next
    case (Block f)
    with gt assms show ?thesis using grow [of f] by (simp add: array_reserve_grow)
  qed
qed

lemma array_contents_grown:
  assumes ok: "array_ok a" and gt: "arr_capacity a < n"
  shows "array_contents (a\<lparr>arr_elements := Some (grown T f a n), arr_capacity := n\<rparr>) =
         array_contents a"
proof -
  from gt have lt: "unat (arr_capacity a) < unat n" by (simp add: word_less_nat_alt)
  from ok have cnt: "unat (arr_count a) \<le> unat (arr_capacity a)"
    by (simp add: array_ok_def word_le_nat_alt)
  show ?thesis
  proof (cases "arr_elements a")
    case None
    with ok have "arr_capacity a = 0" by (simp add: array_ok_def)
    with cnt have "unat (arr_count a) = 0" by simp
    with None show ?thesis by (simp add: array_contents_def)
  next
    case (Some old)
    with ok have len: "length old = unat (arr_capacity a)" by (simp add: array_ok_def)
    have "take (unat (arr_count a)) (grown T f a n) = take (unat (arr_count a)) old"
      using cnt lt len by (intro nth_equalityI) (auto simp: grown_def Some)
    with Some show ?thesis by (simp add: array_contents_def)
  qed
qed

lemma array_ok_grown:
  assumes ok: "array_ok a" and gt: "arr_capacity a < n"
  shows "array_ok (a\<lparr>arr_elements := Some (grown T f a n), arr_capacity := n\<rparr>)"
  using assms by (auto simp: array_ok_def grown_def)

lemma array_reserve_keeps:
  assumes "array_ok a" and "sizeof T \<noteq> 0" and "no_wrap (sizeof T) n"
  shows "\<exists>ok a'. array_reserve T reply a n = Some (ok, a') \<and>
           array_contents a' = array_contents a \<and> array_ok a'"
proof (rule array_reserve_cases [OF assms, of reply])
  assume "array_reserve T reply a n = Some (True, a)"
  with assms(1) show ?thesis by auto
next
  assume "array_reserve T reply a n = Some (False, a)"
  with assms(1) show ?thesis by auto
next
  fix f
  assume gt: "arr_capacity a < n"
    and "array_reserve T reply a n =
           Some (True, a\<lparr>arr_elements := Some (grown T f a n), arr_capacity := n\<rparr>)"
  then show ?thesis
    using array_contents_grown [OF assms(1) gt, of T f] array_ok_grown [OF assms(1) gt, of T f]
    by auto
qed

lemma array_reserves_keeps:
  assumes "sizeof T \<noteq> 0"
  shows "array_ok a \<Longrightarrow> \<forall>c \<in> set calls. no_wrap (sizeof T) (snd c) \<Longrightarrow>
     \<exists>oks a'. array_reserves T a calls = Some (oks, a') \<and>
       array_contents a' = array_contents a \<and> array_ok a'"
proof (induction calls arbitrary: a)
  case Nil
  then show ?case by simp
next
  case (Cons call calls)
  obtain reply n where call: "call = (reply, n)" by (cases call)
  with Cons.prems(2) have nw: "no_wrap (sizeof T) n" by simp
  from array_reserve_keeps [OF Cons.prems(1) assms nw, of reply]
  obtain ok a1 where step: "array_reserve T reply a n = Some (ok, a1)"
    and k: "array_contents a1 = array_contents a" and ok1: "array_ok a1" by blast
  from Cons.prems(2) have "\<forall>c \<in> set calls. no_wrap (sizeof T) (snd c)" by simp
  from Cons.IH [OF ok1 this]
  obtain oks a2 where rest: "array_reserves T a1 calls = Some (oks, a2)"
    and k2: "array_contents a2 = array_contents a1" and ok2: "array_ok a2" by blast
  from step rest k k2 ok2 show ?case by (simp add: call)
qed

lemma array_ok_init: "array_ok array_init"
  by (simp add: array_ok_def array_init_def)

lemma array_ok_push_back_reserved:
  assumes ok: "array_ok a" and room: "arr_count a < arr_capacity a"
  shows "\<exists>a'. push_back_reserved a element = Some a' \<and> array_ok a' \<and>
              array_contents a' = array_contents a @ [element]"
proof -
  from room have lt: "unat (arr_count a) < unat (arr_capacity a)" by (simp add: word_less_nat_alt)
  from room have "arr_capacity a \<noteq> 0" by auto
  with ok obtain mem where mem: "arr_elements a = Some mem"
    and len: "length mem = unat (arr_capacity a)"
    by (cases "arr_elements a") (auto simp: array_ok_def)
  from lt have u: "unat (arr_count a + 1) = unat (arr_count a) + 1" by (rule unat_succ_below)
  from room have le: "arr_count a + 1 \<le> arr_capacity a" by (rule inc_le)
  show ?thesis
    using mem len lt u le
    by (simp add: push_back_reserved_def array_ok_def array_contents_def take_Suc_conv_app_nth)
qed

lemma grown_cells:
  assumes ok: "array_ok a" and gt: "arr_capacity a < n"
  shows "length (grown T f a n) = unat n"
    and "arr_elements a = Some old \<Longrightarrow> i < unat (arr_capacity a) \<Longrightarrow> grown T f a n ! i = old ! i"
    and "unat (arr_capacity a) \<le> i \<Longrightarrow> i < unat n \<Longrightarrow> grown T f a n ! i = default_cell T (f i)"
proof -
  from gt have lt: "unat (arr_capacity a) < unat n" by (simp add: word_less_nat_alt)
  show "length (grown T f a n) = unat n" by (simp add: grown_def)
  show "grown T f a n ! i = old ! i" if "arr_elements a = Some old" "i < unat (arr_capacity a)"
    using that lt by (simp add: grown_def)
  show "grown T f a n ! i = default_cell T (f i)" if "unat (arr_capacity a) \<le> i" "i < unat n"
    using that by (simp add: grown_def)
qed

text \<open>
  Claim C7 as stated fails where the byte count \<^verbatim>\<open>sizeof(element_at) * n\<close> wraps
  around: an \<^verbatim>\<open>array_gt<uint64_t>\<close> that holds 1, 2, 3, 4 in a block of four cells,
  asked to \<^verbatim>\<open>reserve(2^61 + 1)\<close>, calls \<^verbatim>\<open>realloc(elements_, 8)\<close>; when that succeeds
  the block has one cell, \<^verbatim>\<open>reserve\<close> returns true with the capacity \<open>2^61 + 1\<close>, and of
  the four appended elements only the first is left.
\<close>

theorem array_reserve_wrapping_counterexample:
  "array_ok \<lparr>arr_elements = Some [1, 2, 3, 4 :: 64 word], arr_count = 4, arr_capacity = 4\<rparr> \<and>
   sizeof uint64_type * 2305843009213693953 = 8 \<and>
   array_reserve uint64_type (Block (\<lambda>i. 0))
       \<lparr>arr_elements = Some [1, 2, 3, 4], arr_count = 4, arr_capacity = 4\<rparr>
       2305843009213693953 =
     Some (True, \<lparr>arr_elements = Some [1], arr_count = 4,
                  arr_capacity = 2305843009213693953\<rparr>) \<and>
   array_contents \<lparr>arr_elements = Some [1, 2, 3, 4 :: 64 word], arr_count = 4,
                   arr_capacity = 4\<rparr> = [1, 2, 3, 4] \<and>
   array_contents \<lparr>arr_elements = Some [1 :: 64 word], arr_count = 4,
                   arr_capacity = 2305843009213693953\<rparr> = [1] \<and>
   array_contents \<lparr>arr_elements = Some [1 :: 64 word], arr_count = 4,
                   arr_capacity = 2305843009213693953\<rparr> \<noteq>
     array_contents \<lparr>arr_elements = Some [1, 2, 3, 4 :: 64 word], arr_count = 4,
                     arr_capacity = 4\<rparr>"
  by (simp add: array_ok_def array_contents_def array_reserve_def realloc_bytes_def realloc_def
      cells_of_def construct_range_def uint64_type_def)

text \<open>
  Claim C7, amended: for every array (in a state of its representation invariant) of
  an element type of non-zero size, \<^verbatim>\<open>reserve(n)\<close> with \<open>n\<close> at most the capacity
  returns true and leaves the array as it is; with \<open>n\<close> above the capacity, a byte
  count \<^verbatim>\<open>sizeof(element_at) * n\<close> that does not wrap and an allocation that succeeds,
  it returns true, the capacity is \<open>n\<close>, the count is unchanged, every cell below the
  old capacity (so every appended element) holds what it held, and the cells from the
  old capacity to the new one are default-initialised. After any sequence of
  \<^verbatim>\<open>reserve\<close> calls whose byte counts do not wrap, so after each call of a
  non-decreasing sequence of successful ones, the appended elements are what they were.
\<close>

theorem array_reserve_preserves_elements:
  fixes a :: "'a array_gt"
  assumes "array_ok a" and "sizeof T \<noteq> 0"
  shows "(n \<le> arr_capacity a \<longrightarrow> array_reserve T reply a n = Some (True, a)) \<and>
         (arr_capacity a < n \<and> no_wrap (sizeof T) n \<longrightarrow>
            (\<exists>mem'. array_reserve T (Block f) a n =
                       Some (True, a\<lparr>arr_elements := Some mem', arr_capacity := n\<rparr>) \<and>
                     length mem' = unat n \<and>
                     (\<forall>old i. arr_elements a = Some old \<and> i < unat (arr_capacity a) \<longrightarrow>
                        mem' ! i = old ! i) \<and>
                     (\<forall>i. unat (arr_capacity a) \<le> i \<and> i < unat n \<longrightarrow>
                        mem' ! i = default_cell T (f i)) \<and>
                     array_contents (a\<lparr>arr_elements := Some mem', arr_capacity := n\<rparr>) =
                       array_contents a)) \<and>
         (\<forall>calls. (\<forall>c \<in> set calls. no_wrap (sizeof T) (snd c)) \<longrightarrow>
            (\<exists>oks a'. array_reserves T a calls = Some (oks, a') \<and>
                       array_contents a' = array_contents a))"
proof (intro conjI impI allI)
  assume "n \<le> arr_capacity a"
  then show "array_reserve T reply a n = Some (True, a)" by (rule array_reserve_noop)
next
  assume "arr_capacity a < n \<and> no_wrap (sizeof T) n"
  then have gt: "arr_capacity a < n" and nw: "no_wrap (sizeof T) n" by simp_all
  show "\<exists>mem'. array_reserve T (Block f) a n =
                       Some (True, a\<lparr>arr_elements := Some mem', arr_capacity := n\<rparr>) \<and>
                     length mem' = unat n \<and>
                     (\<forall>old i. arr_elements a = Some old \<and> i < unat (arr_capacity a) \<longrightarrow>
                        mem' ! i = old ! i) \<and>
                     (\<forall>i. unat (arr_capacity a) \<le> i \<and> i < unat n \<longrightarrow>
                        mem' ! i = default_cell T (f i)) \<and>
                     array_contents (a\<lparr>arr_elements := Some mem', arr_capacity := n\<rparr>) =
                       array_contents a"
    using array_reserve_grow [OF assms(1) gt assms(2) nw, of f]
      grown_cells [OF assms(1) gt, where T = T and f = f]
      array_contents_grown [OF assms(1) gt, of T f]
    by (intro exI [of _ "grown T f a n"]) simp
next
  fix calls :: "('a heap_reply \<times> size_t) list"
  assume "\<forall>c \<in> set calls. no_wrap (sizeof T) (snd c)"
  from array_reserves_keeps [OF assms(2) assms(1) this]
  show "\<exists>oks a'. array_reserves T a calls = Some (oks, a') \<and>
                  array_contents a' = array_contents a"
    by blast
qed

theorem array_reserve_preserves_elements_witness:
  "array_ok \<lparr>arr_elements = Some [104, 105 :: 8 word], arr_count = 2, arr_capacity = 2\<rparr> \<and>
   sizeof char_type \<noteq> 0 \<and> no_wrap (sizeof char_type) 4 \<and> no_wrap (sizeof char_type) 9 \<and>
   array_reserve char_type Null
       \<lparr>arr_elements = Some [104, 105 :: 8 word], arr_count = 2, arr_capacity = 2\<rparr> 1 =
     Some (True, \<lparr>arr_elements = Some [104, 105 :: 8 word], arr_count = 2, arr_capacity = 2\<rparr>) \<and>
   array_reserve char_type (Block (\<lambda>i. 7))
       \<lparr>arr_elements = Some [104, 105 :: 8 word], arr_count = 2, arr_capacity = 2\<rparr> 4 =
     Some (True, \<lparr>arr_elements = Some [104, 105, 7, 7], arr_count = 2, arr_capacity = 4\<rparr>) \<and>
   (\<exists>oks a'. array_reserves char_type
       \<lparr>arr_elements = Some [104, 105 :: 8 word], arr_count = 2, arr_capacity = 2\<rparr>
       [(Block (\<lambda>i. 7), 4), (Null, 9), (Block (\<lambda>i. 8), 9)] = Some (oks, a') \<and>
       array_contents a' = [104, 105])"
proof -
  let ?a = "\<lparr>arr_elements = Some [104, 105 :: 8 word], arr_count = 2, arr_capacity = 2\<rparr>"
  have h: "array_ok ?a" by (simp add: array_ok_def)
  have sz: "sizeof char_type \<noteq> 0" by (simp add: char_type_def)
  have nw4: "no_wrap (sizeof char_type) 4" and nw9: "no_wrap (sizeof char_type) 9"
    by (simp_all add: no_wrap_def char_type_def)
  have c: "array_contents ?a = [104, 105]" by (simp add: array_contents_def)
  note t = array_reserve_preserves_elements [OF h sz, where n = 1 and reply = Null]
  note t' = array_reserve_preserves_elements [OF h sz, where n = 4 and f = "\<lambda>i. 7"]
  from t have A: "array_reserve char_type Null ?a 1 = Some (True, ?a)" by simp
  have B: "array_reserve char_type (Block (\<lambda>i. 7)) ?a 4 =
      Some (True, \<lparr>arr_elements = Some [104, 105, 7, 7], arr_count = 2, arr_capacity = 4\<rparr>)"
    by (simp add: array_reserve_def realloc_bytes_def realloc_def cells_of_def
        construct_range_def char_type_def upt4)
  have "\<forall>c \<in> set [(Block (\<lambda>i. 7 :: 8 word), 4 :: size_t), (Null, 9), (Block (\<lambda>i. 8), 9)].
          no_wrap (sizeof char_type) (snd c)"
    using nw4 nw9 by simp
  with t' have "\<exists>oks a'. array_reserves char_type ?a
       [(Block (\<lambda>i. 7), 4), (Null, 9), (Block (\<lambda>i. 8), 9)] = Some (oks, a') \<and>
       array_contents a' = array_contents ?a"
    by blast
  then have C: "\<exists>oks a'. array_reserves char_type ?a
       [(Block (\<lambda>i. 7), 4), (Null, 9), (Block (\<lambda>i. 8), 9)] = Some (oks, a') \<and>
       array_contents a' = [104, 105]"
    by (simp only: c)
  from h sz nw4 nw9 A B C show ?thesis by blast
qed

subsection \<open>\<^verbatim>\<open>pool_gt\<close>\<close>

lemma length_iota [simp]: "length (iota n) = unat n"
  by (simp add: iota_def)

lemma nth_iota: "i < unat n \<Longrightarrow> iota n ! i = word_of_nat i"
  by (simp add: iota_def)

lemma unat_word_of_nat_below:
  "i < unat (n :: size_t) \<Longrightarrow> unat (word_of_nat i :: size_t) = i"
  by (rule le_unat_uoi [of i n]) simp

lemma distinct_iota: "distinct (iota n)"
proof -
  have "inj_on (word_of_nat :: nat \<Rightarrow> size_t) (set [0..<unat n])"
  proof (rule inj_onI)
    fix x y assume x: "x \<in> set [0..<unat n]" and y: "y \<in> set [0..<unat n]"
      and eq: "(word_of_nat x :: size_t) = word_of_nat y"
    from x have "x < unat n" by simp
    then have "x = unat (word_of_nat x :: size_t)" by (rule unat_word_of_nat_below [symmetric])
    also have "\<dots> = unat (word_of_nat y :: size_t)" by (rule arg_cong [OF eq])
    also from y have "y < unat n" by simp
    then have "unat (word_of_nat y :: size_t) = y" by (rule unat_word_of_nat_below)
    finally show "x = y" .
  qed
  then show ?thesis by (simp add: iota_def distinct_map)
qed

lemma pool_reserve_True:
  assumes "pool_reserve T reply p0 n = Some (True, p)"
  shows "free_offsets p = Some (iota n) \<and> free_count p = n \<and> pool_capacity p = n"
  using assms
  by (cases reply)
     (auto simp: pool_reserve_def Let_def split: if_splits option.splits)

lemma pool_reserve_fits:
  assumes "unat (sizeof T) * unat n + 8 * unat n \<le> unat ((sizeof T + 8) * n)"
  shows "\<exists>mem. pool_reserve T (Block f) p0 n =
           Some (True, \<lparr>pool_capacity = n, free_count = n, pool_elements = Some mem,
                        free_offsets = Some (iota n)\<rparr>) \<and>
           mem = map (\<lambda>i. default_cell T (f i)) [0..<unat n]"
proof -
  have "construct_range T (map f [0..<unat n]) 0 (unat n) =
          Some (map (\<lambda>i. default_cell T (f i)) [0..<unat n])"
    using construct_range_fits [of "unat n" "map f [0..<unat n]" T 0]
    by (simp cong: map_cong)
  with assms show ?thesis by (simp add: pool_reserve_def Let_def)
qed

lemma pool_reserve_overflow:
  assumes "unat ((sizeof T + 8) * n) < unat (sizeof T) * unat n + 8 * unat n"
  shows "pool_reserve T (Block f) p0 n = None"
  using assms by (simp add: pool_reserve_def Let_def)

lemma pool_reserve_overflow_example:
  "pool_reserve char_type (Block f) pool_init 2305843009213693952 = None"
  by (rule pool_reserve_overflow) (simp add: char_type_def)

lemma pool_alloc_step:
  assumes "free_offsets s = Some offs" and "free_count s \<noteq> 0"
    and "unat (free_count s) \<le> length offs"
  shows "pool_alloc s =
           Some (At (offs ! (unat (free_count s) - 1)), s\<lparr>free_count := free_count s - 1\<rparr>)"
proof -
  from assms(2) have u: "unat (free_count s - 1) = unat (free_count s) - 1"
    by (rule unat_minus_one)
  from assms(2) have "0 < unat (free_count s)" by (simp add: unat_gt_0)
  with assms(3) u have "unat (free_count s - 1) < length offs" by simp
  with assms(1,2) u show ?thesis by (simp add: pool_alloc_def)
qed

lemma pool_alloc_empty: "free_count s = 0 \<Longrightarrow> pool_alloc s = Some (Nullptr, s)"
  by (simp add: pool_alloc_def)

lemma pool_allocs_stack:
  assumes "free_offsets s = Some offs" and "unat (free_count s) = m"
    and "k \<le> m" and "m \<le> length offs"
  shows "pool_allocs k s =
           Some (map (\<lambda>j. At (offs ! (m - 1 - j))) [0..<k],
                 s\<lparr>free_count := free_count s - word_of_nat k\<rparr>)"
  using assms
proof (induction k arbitrary: s m)
  case 0
  then show ?case by simp
next
  case (Suc k)
  from Suc.prems have nz: "free_count s \<noteq> 0" by (auto simp: unat_eq_0 [symmetric])
  let ?s' = "s\<lparr>free_count := free_count s - 1\<rparr>"
  from Suc.prems nz have step:
    "pool_alloc s = Some (At (offs ! (m - 1)), ?s')"
    using pool_alloc_step [of s offs] by simp
  have m': "unat (free_count ?s') = m - 1"
    using nz Suc.prems(2) by (simp add: unat_minus_one)
  have ih: "pool_allocs k ?s' =
      Some (map (\<lambda>j. At (offs ! (m - 1 - 1 - j))) [0..<k],
            ?s'\<lparr>free_count := free_count ?s' - word_of_nat k\<rparr>)"
    using Suc.prems by (intro Suc.IH [OF _ m']) simp_all
  have shift: "map (\<lambda>j. At (offs ! (m - 1 - j))) [0..<Suc k] =
      At (offs ! (m - 1)) # map (\<lambda>j. At (offs ! (m - 1 - 1 - j))) [0..<k]"
    by (simp add: upt_conv_Cons map_Suc_upt [symmetric] del: upt_Suc)
  have fc: "free_count s - 1 - word_of_nat k = free_count s - word_of_nat (Suc k)"
    by simp
  show ?case
    unfolding shift using step ih fc by simp
qed

lemma pool_release_step:
  assumes "free_offsets s = Some offs" and "unat (free_count s) < length offs"
  shows "pool_release s (At k) =
           Some (s\<lparr>free_offsets := Some (offs[unat (free_count s) := k]),
                   free_count := free_count s + 1\<rparr>)"
  using assms by (simp add: pool_release_def)

lemma pool_inv_room:
  assumes inv: "pool_inv n out s" and k: "k \<in> out"
  shows "unat (free_count s) < unat n"
proof -
  from inv obtain offs where offs: "free_offsets s = Some offs"
    and len: "length offs = unat n" and le: "unat (free_count s) \<le> unat n"
    and dist: "distinct (take (unat (free_count s)) offs)"
    and disj: "set (take (unat (free_count s)) offs) \<inter> out = {}"
    and un: "set (take (unat (free_count s)) offs) \<union> out = set (iota n)"
    by (auto simp: pool_inv_def split: option.splits)
  let ?free = "take (unat (free_count s)) offs"
  from k disj un have "set ?free \<subseteq> set (iota n) - {k}" and "k \<in> set (iota n)" by auto
  then have "card (set ?free) < card (set (iota n))"
    by (intro psubset_card_mono) auto
  moreover have "card (set ?free) = unat (free_count s)"
    using dist le len by (simp add: distinct_card)
  moreover have "card (set (iota n)) = unat n"
    using distinct_iota [of n] by (simp add: distinct_card)
  ultimately show ?thesis by simp
qed

lemma pool_reach_inv:
  assumes "pool_reach p out s" and "free_offsets p = Some (iota n)" and "free_count p = n"
  shows "pool_inv n out s"
  using assms
proof (induction rule: pool_reach.induct)
  case fresh
  then show ?case by (simp add: pool_inv_def distinct_iota)
next
  case (alloc_some out s k s')
  then have inv: "pool_inv n out s" by simp
  then obtain offs where offs: "free_offsets s = Some offs"
    and len: "length offs = unat n" and le: "unat (free_count s) \<le> unat n"
    and dist: "distinct (take (unat (free_count s)) offs)"
    and disj: "set (take (unat (free_count s)) offs) \<inter> out = {}"
    and un: "set (take (unat (free_count s)) offs) \<union> out = set (iota n)"
    by (auto simp: pool_inv_def split: option.splits)
  from alloc_some.hyps(2) have nz: "free_count s \<noteq> 0"
    by (auto simp: pool_alloc_def split: if_splits)
  then have pos: "0 < unat (free_count s)" by (simp add: unat_gt_0)
  from pool_alloc_step [OF offs nz] le len alloc_some.hyps(2)
  have k: "k = offs ! (unat (free_count s) - 1)"
    and s': "s' = s\<lparr>free_count := free_count s - 1\<rparr>" by simp_all
  have u: "unat (free_count s - 1) = unat (free_count s) - 1" using nz by (rule unat_minus_one)
  have split: "take (unat (free_count s)) offs = take (unat (free_count s) - 1) offs @ [k]"
    using pos le len k take_Suc_conv_app_nth [of "unat (free_count s) - 1" offs] by simp
  show ?case
    using dist disj un le len offs unfolding split
    by (auto simp: pool_inv_def s' u)
next
  case (alloc_null out s s')
  then have inv: "pool_inv n out s" by simp
  from alloc_null.hyps(2) have "s' = s"
    by (auto simp: pool_alloc_def Let_def split: if_splits option.splits)
  with inv show ?case by simp
next
  case (release out s k s')
  then have inv: "pool_inv n out s" by simp
  then obtain offs where offs: "free_offsets s = Some offs"
    and len: "length offs = unat n" and le: "unat (free_count s) \<le> unat n"
    and dist: "distinct (take (unat (free_count s)) offs)"
    and disj: "set (take (unat (free_count s)) offs) \<inter> out = {}"
    and un: "set (take (unat (free_count s)) offs) \<union> out = set (iota n)"
    by (auto simp: pool_inv_def split: option.splits)
  from pool_inv_room [OF inv release.hyps(2)] have room: "unat (free_count s) < unat n" .
  with pool_release_step [OF offs, of k] len release.hyps(3)
  have s': "s' = s\<lparr>free_offsets := Some (offs[unat (free_count s) := k]),
                    free_count := free_count s + 1\<rparr>" by simp
  have u: "unat (free_count s + 1) = unat (free_count s) + 1"
    using room by (rule unat_succ_below)
  have split: "take (Suc (unat (free_count s))) (offs[unat (free_count s) := k]) =
               take (unat (free_count s)) offs @ [k]"
    using room len by (simp add: take_Suc_conv_app_nth)
  from release.hyps(2) disj have knew: "k \<notin> set (take (unat (free_count s)) offs)" by auto
  show ?case
    using dist disj un room len knew release.hyps(2)
    by (auto simp: pool_inv_def s' u split)
qed

lemma pool_release_then_alloc:
  assumes inv: "pool_inv n out s" and k: "k \<in> out"
  shows "\<exists>s'. pool_release s (At k) = Some s' \<and>
              pool_alloc s' = Some (At k, s'\<lparr>free_count := free_count s\<rparr>)"
proof -
  from inv obtain offs where offs: "free_offsets s = Some offs"
    and len: "length offs = unat n"
    by (auto simp: pool_inv_def split: option.splits)
  from pool_inv_room [OF inv k] have room: "unat (free_count s) < unat n" .
  let ?s' = "s\<lparr>free_offsets := Some (offs[unat (free_count s) := k]),
                free_count := free_count s + 1\<rparr>"
  have rel: "pool_release s (At k) = Some ?s'"
    using pool_release_step [OF offs, of k] room len by simp
  have u: "unat (free_count s + 1) = unat (free_count s) + 1"
    using room by (rule unat_succ_below)
  then have nz: "free_count ?s' \<noteq> 0" by (auto simp: unat_eq_0 [symmetric])
  have "pool_alloc ?s' = Some (At k, ?s'\<lparr>free_count := free_count s\<rparr>)"
    using pool_alloc_step [of ?s' "offs[unat (free_count s) := k]"] nz u room len by simp
  with rel show ?thesis by blast
qed


lemma rev_iota_stack:
  "map (\<lambda>j. At (iota n ! (unat n - 1 - j))) [0..<unat n] = map At (rev (iota n))"
  by (rule nth_equalityI) (simp_all add: rev_nth)

text \<open>
  Claim C8: for every pool freshly reserved with capacity \<open>n\<close> (\<^verbatim>\<open>reserve(n)\<close>
  returned true, which it does not where its byte count wraps around: there its
  writes leave the block, \<open>pool_reserve_overflow\<close>), the first \<open>n\<close>
  \<^verbatim>\<open>alloc()\<close> calls return non-null pointers (to the offsets \<open>n - 1, \<dots>, 0\<close>, all
  different), and the next \<^verbatim>\<open>alloc()\<close> returns null and leaves the pool as it is; and
  in every state the pool reaches, after \<^verbatim>\<open>release(p)\<close> of an element \<open>p\<close> that is
  allocated, the next \<^verbatim>\<open>alloc()\<close> returns \<open>p\<close>.
\<close>

theorem pool_exhaustion_and_reuse:
  assumes "pool_reserve T reply p0 n = Some (True, p)"
  shows "(\<exists>p'. pool_allocs (unat n) p = Some (map At (rev (iota n)), p') \<and>
               length (map At (rev (iota n))) = unat n \<and>
               distinct (map At (rev (iota n))) \<and>
               pool_alloc p' = Some (Nullptr, p')) \<and>
         (\<forall>out s k. pool_reach p out s \<and> k \<in> out \<longrightarrow>
            (\<exists>s' s''. pool_release s (At k) = Some s' \<and> pool_alloc s' = Some (At k, s'')))"
proof (intro conjI allI impI)
  from pool_reserve_True [OF assms]
  have offs: "free_offsets p = Some (iota n)" and fc: "free_count p = n" by simp_all
  have "pool_allocs (unat n) p =
          Some (map (\<lambda>j. At (iota n ! (unat n - 1 - j))) [0..<unat n],
                p\<lparr>free_count := free_count p - word_of_nat (unat n)\<rparr>)"
    using offs fc by (intro pool_allocs_stack) simp_all
  then have allocs: "pool_allocs (unat n) p = Some (map At (rev (iota n)), p\<lparr>free_count := 0\<rparr>)"
    by (simp only: rev_iota_stack) (simp add: fc)
  have "distinct (map At (rev (iota n)))"
    using distinct_iota [of n] by (simp add: distinct_map inj_on_def)
  moreover have "pool_alloc (p\<lparr>free_count := 0\<rparr>) = Some (Nullptr, p\<lparr>free_count := 0\<rparr>)"
    by (rule pool_alloc_empty) simp
  ultimately show "\<exists>p'. pool_allocs (unat n) p = Some (map At (rev (iota n)), p') \<and>
               length (map At (rev (iota n))) = unat n \<and>
               distinct (map At (rev (iota n))) \<and>
               pool_alloc p' = Some (Nullptr, p')"
    using allocs by (intro exI [of _ "p\<lparr>free_count := 0\<rparr>"]) simp
next
  fix out s k
  assume "pool_reach p out s \<and> k \<in> out"
  then have reach: "pool_reach p out s" and k: "k \<in> out" by simp_all
  from pool_reserve_True [OF assms]
  have "free_offsets p = Some (iota n)" and "free_count p = n" by simp_all
  with reach have "pool_inv n out s" by (rule pool_reach_inv)
  from pool_release_then_alloc [OF this k]
  show "\<exists>s' s''. pool_release s (At k) = Some s' \<and> pool_alloc s' = Some (At k, s'')"
    by blast
qed


theorem pool_exhaustion_and_reuse_witness:
  "pool_reserve char_type (Block (\<lambda>i. 0)) pool_init 2 =
     Some (True, \<lparr>pool_capacity = 2, free_count = 2, pool_elements = Some [0, 0],
                  free_offsets = Some [0, 1]\<rparr>) \<and>
   pool_allocs 2 \<lparr>pool_capacity = 2, free_count = 2, pool_elements = Some [0, 0 :: 8 word],
                  free_offsets = Some [0, 1]\<rparr> =
     Some ([At 1, At 0], \<lparr>pool_capacity = 2, free_count = 0, pool_elements = Some [0, 0],
                           free_offsets = Some [0, 1]\<rparr>) \<and>
   pool_alloc \<lparr>pool_capacity = 2, free_count = 0, pool_elements = Some [0, 0 :: 8 word],
               free_offsets = Some [0, 1]\<rparr> =
     Some (Nullptr, \<lparr>pool_capacity = 2, free_count = 0, pool_elements = Some [0, 0],
                     free_offsets = Some [0, 1]\<rparr>) \<and>
   (\<exists>s' s''. pool_release \<lparr>pool_capacity = 2, free_count = 0,
                 pool_elements = Some [0, 0 :: 8 word], free_offsets = Some [0, 1]\<rparr> (At 1) =
                 Some s' \<and>
              pool_alloc s' = Some (At 1, s''))"
proof -
  let ?P = "\<lparr>pool_capacity = 2, free_count = 2, pool_elements = Some [0, 0 :: 8 word],
             free_offsets = Some [0, 1]\<rparr>"
  have i2: "iota 2 = [0, 1]" by (simp add: iota_def upt_rec)
  have u2: "[0..<2] = [0, 1]" by (simp add: upt_rec)
  have h: "pool_reserve char_type (Block (\<lambda>i. 0)) pool_init 2 = Some (True, ?P)"
    by (simp add: pool_reserve_def pool_init_def construct_range_def char_type_def i2 u2)
  note t = pool_exhaustion_and_reuse [OF h]
  have a1: "pool_alloc ?P = Some (At 1, ?P\<lparr>free_count := 1\<rparr>)"
    by (simp add: pool_alloc_def)
  have a2: "pool_alloc (?P\<lparr>free_count := 1\<rparr>) = Some (At 0, ?P\<lparr>free_count := 0\<rparr>)"
    by (simp add: pool_alloc_def)
  have a3: "pool_alloc (?P\<lparr>free_count := 0\<rparr>) = Some (Nullptr, ?P\<lparr>free_count := 0\<rparr>)"
    by (simp add: pool_alloc_def)
  have allocs: "pool_allocs 2 ?P = Some ([At 1, At 0], ?P\<lparr>free_count := 0\<rparr>)"
    using a1 a2 by (simp add: numeral_2_eq_2)
  have "pool_reach ?P {} ?P" by (rule pool_reach.fresh)
  from pool_reach.alloc_some [OF this a1]
  have "pool_reach ?P (insert 1 {}) (?P\<lparr>free_count := 1\<rparr>)" .
  from pool_reach.alloc_some [OF this a2]
  have reach: "pool_reach ?P (insert 0 (insert 1 {})) (?P\<lparr>free_count := 0\<rparr>)" .
  have "\<exists>s' s''. pool_release (?P\<lparr>free_count := 0\<rparr>) (At 1) = Some s' \<and>
                 pool_alloc s' = Some (At 1, s'')"
    using t reach by blast
  then show ?thesis using h allocs a3 by simp
qed

section \<open>Properties of the connection ring\<close>

subsection \<open>Bounds of the reachable states\<close>

lemma unat_next_slot:
  assumes "(x :: size_t) < cap"
  shows "unat ((x + 1) mod cap) = (unat x + 1) mod unat cap"
    and "(x + 1) mod cap < cap"
proof -
  from assms have "unat x < unat cap" by (simp add: word_less_nat_alt)
  then have "unat (x + 1) = unat x + 1" by (rule unat_succ_below)
  then show "unat ((x + 1) mod cap) = (unat x + 1) mod unat cap" by (simp add: unat_mod)
  from assms have "0 < cap" by (metis word_gt_0 not_less_iff_gr_or_eq word_not_simps(1))
  then show "(x + 1) mod cap < cap" by (rule word_mod_less_divisor)
qed

lemma alloc_bounds:
  assumes "n \<noteq> 0"
  shows "ring_bounds (snd (alloc (Block f) round_robin_init n))"
  using assms by (simp add: alloc_def malloc_def round_robin_init_def ring_bounds_def word_gt_0)

lemma push_ahead_bounds:
  assumes b: "ring_bounds r" and room: "count r < capacity r"
  shows "\<exists>r'. push_ahead r d = Some r' \<and> ring_bounds r' \<and> count r' = count r + 1"
proof -
  from b obtain c where c: "circle r = Some c" and len: "length c = unat (capacity r)"
    and new: "idx_newest r < capacity r" and old: "idx_oldest r < capacity r"
    and cur: "idx_to_poll r < capacity r"
    and rel: "unat (idx_newest r) = (unat (idx_oldest r) + unat (count r)) mod unat (capacity r)"
    by (auto simp: ring_bounds_def split: option.splits)
  from new have capnz: "capacity r \<noteq> 0" by auto
  from new len have inb: "unat (idx_newest r) < length c" by (simp add: word_less_nat_alt)
  from room have cnt: "unat (count r + 1) = unat (count r) + 1"
    by (intro unat_succ_below [of _ "capacity r"]) (simp add: word_less_nat_alt)
  from room have le: "count r + 1 \<le> capacity r" by (rule inc_le)
  have rel': "unat ((idx_newest r + 1) mod capacity r) =
      (unat (idx_oldest r) + unat (count r + 1)) mod unat (capacity r)"
    using unat_next_slot(1) [OF new] rel cnt by (simp add: mod_Suc_eq add.assoc [symmetric])
  show ?thesis
    using c inb capnz len le old cur unat_next_slot(2) [OF new] rel'
    by (simp add: push_ahead_def Let_def ring_bounds_def)
qed

lemma drop_tail_bounds:
  assumes b: "ring_bounds r" and nonempty: "count r \<noteq> 0"
  shows "\<exists>d r'. drop_tail r = Some (d, r') \<and> ring_bounds r' \<and> count r' = count r - 1 \<and>
           idx_oldest r' = (idx_oldest r + 1) mod capacity r \<and>
           capacity r' = capacity r \<and>
           idx_to_poll r' = (if idx_to_poll r = idx_oldest r
                             then (idx_to_poll r + 1) mod capacity r else idx_to_poll r)"
proof -
  from b obtain c where c: "circle r = Some c" and len: "length c = unat (capacity r)"
    and new: "idx_newest r < capacity r" and old: "idx_oldest r < capacity r"
    and cur: "idx_to_poll r < capacity r" and cle: "count r \<le> capacity r"
    and rel: "unat (idx_newest r) = (unat (idx_oldest r) + unat (count r)) mod unat (capacity r)"
    by (auto simp: ring_bounds_def split: option.splits)
  from new have capnz: "capacity r \<noteq> 0" by auto
  from old len have inb: "unat (idx_oldest r) < length c" by (simp add: word_less_nat_alt)
  from nonempty have cnt: "unat (count r - 1) = unat (count r) - 1" by (rule unat_minus_one)
  from nonempty have pos: "0 < unat (count r)" by (simp add: unat_gt_0)
  have le: "count r - 1 \<le> capacity r"
    using cle cnt by (simp add: word_le_nat_alt)
  from pos obtain k where k: "unat (count r) = Suc k" by (cases "unat (count r)") simp_all
  have "((unat (idx_oldest r) + 1) mod unat (capacity r) + k) mod unat (capacity r) =
        (unat (idx_oldest r) + 1 + k) mod unat (capacity r)"
    by (rule mod_add_left_eq)
  then have "(unat (idx_oldest r) + unat (count r)) mod unat (capacity r) =
        ((unat (idx_oldest r) + 1) mod unat (capacity r) + (unat (count r) - 1)) mod unat (capacity r)"
    by (simp add: k)
  then have rel': "unat (idx_newest r) =
      (unat ((idx_oldest r + 1) mod capacity r) + unat (count r - 1)) mod unat (capacity r)"
    using unat_next_slot(1) [OF old] rel cnt by simp
  show ?thesis
    using c inb capnz len le new cur unat_next_slot(2) [OF old] unat_next_slot(2) [OF cur] rel'
    by (simp add: drop_tail_def Let_def ring_bounds_def)
qed

lemma poll_bounds:
  assumes b: "ring_bounds r" and nonempty: "count r \<noteq> 0"
  shows "\<exists>r'. poll r = Some (idx_to_poll r', r') \<and> ring_bounds r' \<and>
           r' = r\<lparr>idx_to_poll :=
                    (if (idx_to_poll r + 1) mod count r = idx_newest r
                     then idx_oldest r else (idx_to_poll r + 1) mod count r)\<rparr>"
proof -
  from b obtain c where c: "circle r = Some c" and len: "length c = unat (capacity r)"
    and new: "idx_newest r < capacity r" and old: "idx_oldest r < capacity r"
    and cur: "idx_to_poll r < capacity r" and cle: "count r \<le> capacity r"
    and rel: "unat (idx_newest r) = (unat (idx_oldest r) + unat (count r)) mod unat (capacity r)"
    by (auto simp: ring_bounds_def split: option.splits)
  from nonempty have "0 < count r" by (simp add: word_gt_0)
  then have "(idx_to_poll r + 1) mod count r < count r" by (rule word_mod_less_divisor)
  with cle have fol: "(idx_to_poll r + 1) mod count r < capacity r" by simp
  let ?i = "if (idx_to_poll r + 1) mod count r = idx_newest r
            then idx_oldest r else (idx_to_poll r + 1) mod count r"
  from fol old have i: "?i < capacity r" by simp
  with len have inb: "unat ?i < length c" by (simp add: word_less_nat_alt)
  show ?thesis
    using c nonempty inb i len cle new old rel
    by (simp add: poll_def Let_def ring_bounds_def)
qed

lemma run_ops_bounds:
  "ring_bounds r \<Longrightarrow> run_ops r ops = Some r' \<Longrightarrow> ring_bounds r'"
proof (induction r ops rule: run_ops.induct)
  case (1 r)
  then show ?case by simp
next
  case (2 r d ops)
  from 2(3) have room: "count r < capacity r" by (simp split: if_splits)
  from push_ahead_bounds [OF 2(2) room, of d] obtain r1
    where r1: "push_ahead r d = Some r1" "ring_bounds r1" by blast
  with 2 room show ?case by simp
next
  case (3 r ops)
  from 3(3) have ne: "count r \<noteq> 0" by (simp split: if_splits)
  from drop_tail_bounds [OF 3(2) ne] obtain d r1
    where r1: "drop_tail r = Some (d, r1)" "ring_bounds r1" by blast
  with 3 ne show ?case by simp
next
  case (4 r ops)
  from 4(3) have ne: "count r \<noteq> 0" by (simp split: if_splits)
  from poll_bounds [OF 4(2) ne] obtain r1
    where r1: "poll r = Some (idx_to_poll r1, r1)" "ring_bounds r1" by blast
  with 4 ne show ?case by simp
qed

lemma allocated_ring_bounds:
  assumes "n \<noteq> 0" and "run_ops (snd (alloc (Block f) round_robin_init n)) ops = Some r"
  shows "ring_bounds r"
  using alloc_bounds [OF assms(1)] assms(2) by (rule run_ops_bounds)

lemma run_ops_defined:
  "ring_bounds r \<Longrightarrow> count r < capacity r \<Longrightarrow> push_ahead r d \<noteq> None"
  "ring_bounds r \<Longrightarrow> count r \<noteq> 0 \<Longrightarrow> drop_tail r \<noteq> None"
  "ring_bounds r \<Longrightarrow> count r \<noteq> 0 \<Longrightarrow> poll r \<noteq> None"
  using push_ahead_bounds [of r d] drop_tail_bounds [of r] poll_bounds [of r] by auto

lemma oldest_is_live:
  assumes b: "ring_bounds r" and nonempty: "count r \<noteq> 0"
  shows "idx_oldest r \<in> set (live_slots r)"
proof -
  from b have old: "idx_oldest r < capacity r"
    by (auto simp: ring_bounds_def split: option.splits)
  then have "unat (idx_oldest r) mod unat (capacity r) = unat (idx_oldest r)"
    by (simp add: word_less_nat_alt)
  then have "word_of_nat ((unat (idx_oldest r) + 0) mod unat (capacity r)) = idx_oldest r"
    by simp
  moreover from nonempty have "0 \<in> set [0..<unat (count r)]" by (simp add: unat_gt_0)
  ultimately show ?thesis unfolding live_slots_def by (metis (no_types, lifting) image_eqI set_map)
qed

lemma drop_tail_cursor:
  assumes b: "ring_bounds r" and nonempty: "count r \<noteq> 0"
    and at_tail: "idx_to_poll r = idx_oldest r" and drop: "drop_tail r = Some (d, r')"
  shows "idx_to_poll r' = idx_oldest r'"
    and "count r' \<noteq> 0 \<Longrightarrow> idx_to_poll r' \<in> set (live_slots r')"
    and "capacity r \<noteq> 1 \<Longrightarrow> idx_to_poll r' \<noteq> idx_oldest r"
proof -
  from drop_tail_bounds [OF b nonempty] drop at_tail
  have b': "ring_bounds r'" and cur: "idx_to_poll r' = (idx_oldest r + 1) mod capacity r"
    and old': "idx_oldest r' = (idx_oldest r + 1) mod capacity r"
    by auto
  from cur old' show "idx_to_poll r' = idx_oldest r'" by simp
  then show "idx_to_poll r' \<in> set (live_slots r')" if "count r' \<noteq> 0"
    using oldest_is_live [OF b' that] by simp
  from b have old: "idx_oldest r < capacity r"
    by (auto simp: ring_bounds_def split: option.splits)
  show "idx_to_poll r' \<noteq> idx_oldest r" if "capacity r \<noteq> 1"
  proof
    assume "idx_to_poll r' = idx_oldest r"
    with cur have "unat ((idx_oldest r + 1) mod capacity r) = unat (idx_oldest r)" by simp
    with unat_next_slot(1) [OF old]
    have eq: "(unat (idx_oldest r) + 1) mod unat (capacity r) = unat (idx_oldest r)" by simp
    from old have lt: "unat (idx_oldest r) < unat (capacity r)" by (simp add: word_less_nat_alt)
    from that have "unat (capacity r) \<noteq> 1" by (simp add: word_unat_eq_iff)
    show False
    proof (cases "unat (idx_oldest r) + 1 < unat (capacity r)")
      case True
      with eq show False by simp
    next
      case False
      with lt have "unat (idx_oldest r) + 1 = unat (capacity r)" by simp
      with eq have "unat (idx_oldest r) = 0" by simp
      with \<open>unat (idx_oldest r) + 1 = unat (capacity r)\<close> \<open>unat (capacity r) \<noteq> 1\<close>
      show False by simp
    qed
  qed
qed


subsection \<open>The poll cursor\<close>

lemma ring4_eq:
  "ring4 = \<lparr>circle = Some [fresh_connection, fresh_connection, fresh_connection, fresh_connection],
            count = 0, capacity = 4, idx_newest = 0, idx_oldest = 0, idx_to_poll = 0\<rparr>"
  by (simp add: ring4_def alloc_def malloc_def round_robin_init_def upt4)

lemma run_10_11_12: "run_ops ring4 [Push 10, Push 11, Push 12] = Some ring_10_11_12"
  by (simp add: ring4_eq ring_10_11_12_def push_ahead_def conn_def fresh_connection_def Let_def)

lemma run_11_12: "run_ops ring4 [Push 10, Push 11, Push 12, Drop] = Some ring_11_12"
  by (simp add: ring4_eq ring_11_12_def push_ahead_def drop_tail_def conn_def
      fresh_connection_def Let_def)

lemma run_11: "run_ops ring4 [Push 10, Push 11, Drop] = Some ring_11"
  by (simp add: ring4_eq ring_11_def push_ahead_def drop_tail_def conn_def
      fresh_connection_def Let_def)

lemma run_11_poll: "run_ops ring4 [Push 10, Push 11, Drop, Poll] = Some (ring_11\<lparr>idx_to_poll := 0\<rparr>)"
  by (simp add: ring4_eq ring_11_def push_ahead_def drop_tail_def poll_def conn_def
      fresh_connection_def Let_def)

lemma poll_10_11_12: "poll ring_10_11_12 = Some (1, ring_10_11_12\<lparr>idx_to_poll := 1\<rparr>)"
  by (simp add: ring_10_11_12_def poll_def Let_def)

lemma poll_11_12: "poll ring_11_12 = Some (0, ring_11_12\<lparr>idx_to_poll := 0\<rparr>)"
  by (simp add: ring_11_12_def poll_def Let_def)

lemma poll_11_12_again: "poll (ring_11_12\<lparr>idx_to_poll := 0\<rparr>) = Some (1, ring_11_12)"
  by (simp add: ring_11_12_def poll_def Let_def)

lemma polls_11_12_twice: "polls (Suc (Suc 0)) ring_11_12 = Some ([0, 1], ring_11_12)"
  by (simp add: poll_11_12 poll_11_12_again)

lemma polls_11_12_four_times:
  "polls (Suc (Suc (Suc (Suc 0)))) ring_11_12 = Some ([0, 1, 0, 1], ring_11_12)"
  by (simp add: poll_11_12 poll_11_12_again)

lemma live_10_11_12: "live_slots ring_10_11_12 = [0, 1, 2]"
  by (simp add: ring_10_11_12_def live_slots_def upt_rec)

lemma live_11_12: "live_slots ring_11_12 = [1, 2]"
  by (simp add: ring_11_12_def live_slots_def upt_rec)

lemma live_11: "live_slots (ring_11\<lparr>idx_to_poll := 0\<rparr>) = [1]"
  by (simp add: ring_11_def live_slots_def upt_rec)

lemma four_Suc: "(4 :: nat) = Suc (Suc (Suc (Suc 0)))"
  by simp

text \<open>
  Claim C2 says that \<^verbatim>\<open>poll()\<close> returns the record at the cursor as it was before
  the call and moves the cursor to the next slot in insertion order. The source takes
  the address of that record (\<^verbatim>\<open>connection_ptr\<close>), does not use it, and returns the
  record at the cursor after the move; and it computes the next index modulo
  \<^verbatim>\<open>count_\<close>, not modulo \<^verbatim>\<open>capacity_\<close>. With connections 10, 11, 12 in slots 0, 1, 2
  and the cursor at slot 0, \<^verbatim>\<open>poll()\<close> returns slot 1 (connection 11). After
  \<^verbatim>\<open>drop_tail()\<close>, with 11, 12 live in slots 1, 2 and the cursor at slot 1,
  \<^verbatim>\<open>poll()\<close> moves the cursor to slot 0, the dropped slot, and not to slot 2.
\<close>

theorem poll_returns_slot_after_the_move:
  "run_ops ring4 [Push 10, Push 11, Push 12] = Some ring_10_11_12 \<and>
   idx_to_poll ring_10_11_12 = 0 \<and>
   live_slots ring_10_11_12 = [0, 1, 2] \<and>
   map_option descriptor (slot_at ring_10_11_12 0) = Some 10 \<and>
   poll ring_10_11_12 = Some (1, ring_10_11_12\<lparr>idx_to_poll := 1\<rparr>) \<and>
   map_option descriptor (slot_at ring_10_11_12 1) = Some 11 \<and>
   run_ops ring4 [Push 10, Push 11, Push 12, Drop] = Some ring_11_12 \<and>
   idx_to_poll ring_11_12 = 1 \<and>
   live_slots ring_11_12 = [1, 2] \<and>
   poll ring_11_12 = Some (0, ring_11_12\<lparr>idx_to_poll := 0\<rparr>)"
proof -
  have "idx_to_poll ring_10_11_12 = 0" and "idx_to_poll ring_11_12 = 1"
    by (simp_all add: ring_10_11_12_def ring_11_12_def)
  moreover have "map_option descriptor (slot_at ring_10_11_12 0) = Some 10"
    and "map_option descriptor (slot_at ring_10_11_12 1) = Some 11"
    by (simp_all add: ring_10_11_12_def slot_at_def conn_def)
  ultimately show ?thesis
    using run_10_11_12 run_11_12 live_10_11_12 live_11_12 poll_10_11_12 poll_11_12
    by (simp only: simp_thms)
qed

text \<open>
  Claim C1 says that \<open>k\<close> polls of a ring of \<open>k\<close> live connections return each of
  them once, in insertion order from the cursor. With 11, 12 live in slots 1, 2 of a
  ring of four slots (10 was dropped from slot 0) and the cursor at slot 1, two polls
  return slot 0, whose descriptor is \<^verbatim>\<open>bad_descriptor_k\<close>, and slot 1, and leave the
  cursor where it was: slot 2 is never returned.
\<close>

theorem polls_miss_a_live_connection:
  "run_ops ring4 [Push 10, Push 11, Push 12, Drop] = Some ring_11_12 \<and>
   count ring_11_12 = 2 \<and>
   live_slots ring_11_12 = [1, 2] \<and>
   cycle_from_cursor ring_11_12 = [1, 2] \<and>
   polls 2 ring_11_12 = Some ([0, 1], ring_11_12) \<and>
   polls 4 ring_11_12 = Some ([0, 1, 0, 1], ring_11_12) \<and>
   map_option descriptor (slot_at ring_11_12 0) = Some bad_descriptor_k"
proof -
  have "count ring_11_12 = 2"
    by (simp add: ring_11_12_def)
  moreover have "cycle_from_cursor ring_11_12 = [1, 2]"
    by (simp add: cycle_from_cursor_def live_11_12) (simp add: ring_11_12_def)
  moreover have "polls 2 ring_11_12 = Some ([0, 1], ring_11_12)"
    using polls_11_12_twice by (simp only: numeral_2_eq_2)
  moreover have "polls 4 ring_11_12 = Some ([0, 1, 0, 1], ring_11_12)"
    using polls_11_12_four_times by (simp only: four_Suc)
  moreover have "map_option descriptor (slot_at ring_11_12 0) = Some bad_descriptor_k"
    by (simp add: ring_11_12_def slot_at_def conn_def)
  ultimately show ?thesis
    using run_11_12 live_11_12 by (simp only: simp_thms)
qed

text \<open>
  Claim C3 says that in every reachable state the count and the indices are in bounds
  and the poll cursor is on a live slot. The bounds hold (\<open>allocated_ring_bounds\<close>), and
  \<^verbatim>\<open>drop_tail()\<close> moves a cursor that is on the oldest slot to the new oldest slot
  (\<open>drop_tail_cursor\<close>). The cursor leaves the live slots in \<^verbatim>\<open>poll()\<close>, which steps
  modulo \<^verbatim>\<open>count_\<close>: with 11 live in slot 1 of a ring of four slots (10 was dropped
  from slot 0), \<^verbatim>\<open>poll()\<close> puts the cursor on slot 0, the dropped slot, in a ring that
  is not empty.
\<close>

theorem poll_parks_cursor_on_dropped_slot:
  "run_ops ring4 [Push 10, Push 11, Drop, Poll] = Some (ring_11\<lparr>idx_to_poll := 0\<rparr>) \<and>
   count (ring_11\<lparr>idx_to_poll := 0\<rparr>) = 1 \<and>
   live_slots (ring_11\<lparr>idx_to_poll := 0\<rparr>) = [1] \<and>
   idx_to_poll (ring_11\<lparr>idx_to_poll := 0\<rparr>) \<notin> set (live_slots (ring_11\<lparr>idx_to_poll := 0\<rparr>)) \<and>
   map_option descriptor (slot_at (ring_11\<lparr>idx_to_poll := 0\<rparr>) 0) = Some bad_descriptor_k"
proof -
  have "count (ring_11\<lparr>idx_to_poll := 0\<rparr>) = 1"
    by (simp add: ring_11_def)
  moreover have "idx_to_poll (ring_11\<lparr>idx_to_poll := 0\<rparr>) \<notin>
      set (live_slots (ring_11\<lparr>idx_to_poll := 0\<rparr>))"
    by (simp add: live_11)
  moreover have "map_option descriptor (slot_at (ring_11\<lparr>idx_to_poll := 0\<rparr>) 0) =
      Some bad_descriptor_k"
    by (simp add: ring_11_def slot_at_def conn_def)
  ultimately show ?thesis
    using run_11_poll live_11 by (simp only: simp_thms)
qed

end
